theory Spec2Isabelle
  imports Complex_Main "HOL-Library.Multiset"
begin

unbundle bit_operations_syntax

section \<open>Python values\<close>

subsection \<open>Strings\<close>

text \<open>
  A Python \<open>str\<close> is a sequence of Unicode code points; a literal of the source is
  written \<open>lit ''...''\<close>. \<open>isspace\<close> lists the code points for which
  \<open>str.isspace\<close> holds, which are the ones \<open>str.strip()\<close> removes.
\<close>

type_synonym pystr = "nat list"

definition lit :: "string \<Rightarrow> pystr" where
  "lit s = map of_char s"

definition whitespace :: "nat list" where
  "whitespace = [9, 10, 11, 12, 13, 28, 29, 30, 31, 32, 133, 160, 5760,
                 8192, 8193, 8194, 8195, 8196, 8197, 8198, 8199, 8200, 8201, 8202,
                 8232, 8233, 8239, 8287, 12288]"

definition isspace :: "nat \<Rightarrow> bool" where
  "isspace c = (c \<in> set whitespace)"

definition strip :: "pystr \<Rightarrow> pystr" where
  "strip s = rev (dropWhile isspace (rev (dropWhile isspace s)))"

text \<open>\<open>str(i)\<close> of an integer, as an f-string field \<open>{i}\<close> renders it.\<close>

fun str_nat :: "nat \<Rightarrow> pystr" where
  "str_nat n = (if n < 10 then [48 + n] else str_nat (n div 10) @ [48 + n mod 10])"

declare str_nat.simps [simp del]

definition str_int :: "int \<Rightarrow> pystr" where
  "str_int i = (if i < 0 then 45 # str_nat (nat (- i)) else str_nat (nat i))"

text \<open>The format spec \<open>02X\<close>: upper-case hexadecimal, zero-padded to width two.\<close>

definition hex_digit :: "nat \<Rightarrow> nat" where
  "hex_digit d = (if d < 10 then 48 + d else 55 + d)"

fun hex_nat :: "nat \<Rightarrow> pystr" where
  "hex_nat n = (if n < 16 then [hex_digit n] else hex_nat (n div 16) @ [hex_digit (n mod 16)])"

declare hex_nat.simps [simp del]

definition format_02X :: "int \<Rightarrow> pystr" where
  "format_02X i = (if i < 0 then 45 # hex_nat (nat (- i))
                   else let h = hex_nat (nat i) in replicate (2 - length h) 48 @ h)"

text \<open>\<open>sep.join(xs)\<close>.\<close>

fun join :: "pystr \<Rightarrow> pystr list \<Rightarrow> pystr" where
  "join sep [] = []"
| "join sep [x] = x"
| "join sep (x # y # ys) = x @ sep @ join sep (y # ys)"

subsection \<open>Floating-point numbers\<close>

text \<open>
  A finite binary64 value is modelled by the rational it denotes. \<open>fl\<close> rounds a
  rational to the nearest binary64 value, ties to even: \<open>ilog2\<close> finds the binade,
  the exponent is clamped at the subnormal range, and the significand has 53 bits.
  Overflow is not modelled: the scorer only forms values between 0 and 100.
\<close>

definition rne :: "rat \<Rightarrow> int" where
  "rne x = (let f = \<lfloor>x\<rfloor>; r = x - of_int f in
            if r < 1 / 2 then f
            else if 1 / 2 < r then f + 1
            else if even f then f else f + 1)"

function log2_up :: "rat \<Rightarrow> int" where
  "log2_up x = (if x < 2 then 0 else log2_up (x / 2) + 1)"
  by pat_completeness auto
termination
proof (relation "measure (\<lambda>x. nat \<lfloor>x\<rfloor>)")
  show "wf (measure (\<lambda>x::rat. nat \<lfloor>x\<rfloor>))" by simp
next
  fix x :: rat
  assume "\<not> x < 2"
  then have "2 \<le> \<lfloor>x\<rfloor>" by linarith
  moreover have "\<lfloor>x / 2\<rfloor> \<le> \<lfloor>x - 1\<rfloor>"
    using \<open>\<not> x < 2\<close> by (intro floor_mono) simp
  ultimately have "\<lfloor>x / 2\<rfloor> < \<lfloor>x\<rfloor>" by simp
  moreover have "0 < \<lfloor>x\<rfloor>" using \<open>2 \<le> \<lfloor>x\<rfloor>\<close> by linarith
  ultimately show "(x / 2, x) \<in> measure (\<lambda>x. nat \<lfloor>x\<rfloor>)" by simp
qed

function log2_dn :: "rat \<Rightarrow> int" where
  "log2_dn x = (if x \<le> 0 \<or> 1 \<le> x then 0 else log2_dn (2 * x) - 1)"
  by pat_completeness auto
termination
proof (relation "measure (\<lambda>x. nat \<lceil>1 / x\<rceil>)")
  show "wf (measure (\<lambda>x::rat. nat \<lceil>1 / x\<rceil>))" by simp
next
  fix x :: rat
  assume "\<not> (x \<le> 0 \<or> 1 \<le> x)"
  then have x: "0 < x" "x < 1" by auto
  then have "1 < 1 / x" by simp
  then have c: "2 \<le> \<lceil>1 / x\<rceil>" by linarith
  have "1 / (2 * x) = (1 / x) / 2" by simp
  also have "\<dots> \<le> of_int \<lceil>1 / x\<rceil> / 2" by (simp add: divide_right_mono)
  finally have "\<lceil>1 / (2 * x)\<rceil> \<le> \<lceil>(of_int \<lceil>1 / x\<rceil> :: rat) / 2\<rceil>"
    by (rule ceiling_mono)
  also have "\<dots> \<le> (\<lceil>1 / x\<rceil> + 1) div 2"
  proof -
    have "\<lceil>1 / x\<rceil> \<le> 2 * ((\<lceil>1 / x\<rceil> + 1) div 2)" by linarith
    then have "(of_int \<lceil>1 / x\<rceil> :: rat) \<le> of_int (2 * ((\<lceil>1 / x\<rceil> + 1) div 2))"
      by (rule of_int_le_iff [THEN iffD2])
    then have "(of_int \<lceil>1 / x\<rceil> :: rat) / 2 \<le> of_int ((\<lceil>1 / x\<rceil> + 1) div 2)"
      by simp
    then show ?thesis by (simp add: ceiling_le_iff)
  qed
  also have "\<dots> < \<lceil>1 / x\<rceil>" using c by linarith
  finally have "\<lceil>1 / (2 * x)\<rceil> < \<lceil>1 / x\<rceil>" .
  then have "nat \<lceil>1 / (2 * x)\<rceil> < nat \<lceil>1 / x\<rceil>" using c by linarith
  then show "(2 * x, x) \<in> measure (\<lambda>x. nat \<lceil>1 / x\<rceil>)" by (simp only: in_measure)
qed

declare log2_up.simps [simp del] log2_dn.simps [simp del]

definition ilog2 :: "rat \<Rightarrow> int" where
  "ilog2 x = (if 1 \<le> x then log2_up x else log2_dn x)"

definition fexp :: "rat \<Rightarrow> int" where
  "fexp a = max (ilog2 a) (- 1022)"

definition fl :: "rat \<Rightarrow> rat" where
  "fl x = (if x = 0 then 0
           else let a = \<bar>x\<bar>; ulp = 2 powi (fexp a - 52)
                in sgn x * of_int (rne (a / ulp)) * ulp)"

text \<open>
  The three float operations of the scorer. \<open>a / b\<close> on two \<open>int\<close>s is the correctly
  rounded quotient; \<open>x * 100\<close> is the IEEE product; \<open>round(x, n)\<close> rounds the exact
  value of \<open>x\<close> to \<open>n\<close> decimals, ties to even, and converts the decimal back.
\<close>

definition int_truediv :: "int \<Rightarrow> int \<Rightarrow> rat" where
  "int_truediv a b = fl (of_int a / of_int b)"

definition float_mul :: "rat \<Rightarrow> rat \<Rightarrow> rat" where
  "float_mul x y = fl (x * y)"

definition py_round :: "rat \<Rightarrow> nat \<Rightarrow> rat" where
  "py_round x n = fl (of_int (rne (x * 10 ^ n)) / 10 ^ n)"

text \<open>
  The floats of a document (font size, ascender, descender, bounding box) are only
  rounded to one decimal and printed. Their type \<open>'f\<close> and these two operations are
  parameters: \<open>float_round1 x\<close> is \<open>round(x, 1)\<close> and \<open>float_str x\<close> is the text of
  \<open>x\<close> in an f-string.
\<close>

record 'f float_ops =
  float_round1 :: "'f \<Rightarrow> 'f"
  float_str :: "'f \<Rightarrow> pystr"

subsection \<open>collections.Counter\<close>

text \<open>
  A \<open>Counter\<close> is a dict from keys to counts, in insertion order. \<open>counter_get\<close> is
  \<open>c[k]\<close> (0 for a missing key), \<open>dict_set\<close> is \<open>c[k] = v\<close>, \<open>counter_incr\<close> is
  \<open>c[k] += 1\<close>, \<open>counter_add\<close> is \<open>a + b\<close> (which keeps positive counts only) and
  \<open>counter_update\<close> is \<open>a.update(b)\<close>.
\<close>

type_synonym counter = "(pystr \<times> int) list"

definition keys :: "counter \<Rightarrow> pystr set" where
  "keys c = fst ` set c"

definition counter_get :: "counter \<Rightarrow> pystr \<Rightarrow> int" where
  "counter_get c k = (case map_of c k of None \<Rightarrow> 0 | Some n \<Rightarrow> n)"

fun dict_set :: "counter \<Rightarrow> pystr \<Rightarrow> int \<Rightarrow> counter" where
  "dict_set [] k v = [(k, v)]"
| "dict_set ((k', v') # c) k v = (if k' = k then (k, v) # c else (k', v') # dict_set c k v)"

definition counter_incr :: "counter \<Rightarrow> pystr \<Rightarrow> counter" where
  "counter_incr c k = dict_set c k (counter_get c k + 1)"

definition counter_add :: "counter \<Rightarrow> counter \<Rightarrow> counter" where
  "counter_add a b =
     (let result = fold (\<lambda>(elem, count) result.
                           let newcount = count + counter_get b elem
                           in if 0 < newcount then dict_set result elem newcount else result) a []
      in fold (\<lambda>(elem, count) result.
                 if elem \<notin> keys a \<and> 0 < count then dict_set result elem count else result)
              b result)"

definition counter_update :: "counter \<Rightarrow> counter \<Rightarrow> counter" where
  "counter_update self other =
     (if self \<noteq> []
      then fold (\<lambda>(elem, count) s. dict_set s elem (count + counter_get s elem)) other self
      else fold (\<lambda>(elem, count) s. dict_set s elem count) other self)"

section \<open>Document format validation\<close>

subsection \<open>Documents as PyMuPDF presents them\<close>

text \<open>
  The dicts of \<open>page.get_text("dict")\<close>: a key that may be absent is an \<open>option\<close>.
  A page also carries, in the order of \<open>page.get_images(full=True)\<close>, the dict that
  \<open>doc.extract_image(xref)\<close> returns for each image occurrence. A file that
  \<open>fitz.open\<close> cannot open is \<open>Unreadable\<close>.
\<close>

record 'f text_span =
  sp_text :: "pystr option"
  sp_font :: "pystr option"
  sp_size :: "'f option"
  sp_color :: "int option"
  sp_flags :: "int option"
  sp_ascender :: "'f option"
  sp_descender :: "'f option"
  sp_bbox :: "'f list option"

record 'f text_line =
  ln_spans :: "'f text_span list option"

record 'f text_block =
  bl_lines :: "'f text_line list option"

record base_image =
  im_width :: "int option"
  im_height :: "int option"
  im_ext :: "pystr option"
  im_colorspace :: "int option"
  im_bpc :: "int option"
  im_image :: "nat list option"

record 'f pdf_page =
  pg_blocks :: "'f text_block list"
  pg_images :: "base_image list"

datatype 'f pdf_file = Unreadable | Readable "'f pdf_page list"

datatype error = DocumentUnreadable | BaselineNotReady | TestFileMissing

subsection \<open>Signature extraction\<close>

definition int_to_hex :: "int \<Rightarrow> pystr" where
  "int_to_hex color_int =
     (let r = (drop_bit 16 color_int) AND 255;
          g = (drop_bit 8 color_int) AND 255;
          b = color_int AND 255
      in lit ''#'' @ format_02X r @ format_02X g @ format_02X b)"

record 'f content_span =
  cs_text :: pystr
  cs_page :: nat
  cs_un_com :: pystr
  cs_color :: pystr
  cs_bbox :: "'f list"

text \<open>
  The f-string \<open>un_com\<close> of one span. \<open>round(span.get("size", 0), 1)\<close> is the
  \<open>int\<close> 0 when the size is absent, and prints as \<open>0\<close>.
\<close>

definition un_com_of :: "'f float_ops \<Rightarrow> 'f text_span \<Rightarrow> pystr" where
  "un_com_of ops spn =
     (let font = (case sp_font spn of None \<Rightarrow> lit ''Unknown'' | Some f \<Rightarrow> f);
          size_s = (case sp_size spn of None \<Rightarrow> str_int 0
                    | Some x \<Rightarrow> float_str ops (float_round1 ops x));
          color_hex = int_to_hex (case sp_color spn of None \<Rightarrow> 0 | Some c \<Rightarrow> c);
          flags = (case sp_flags spn of None \<Rightarrow> [] | Some f \<Rightarrow> str_int f);
          ascender = (case sp_ascender spn of None \<Rightarrow> str_int 0 | Some a \<Rightarrow> float_str ops a);
          descender = (case sp_descender spn of None \<Rightarrow> str_int 0 | Some d \<Rightarrow> float_str ops d)
      in size_s @ lit ''_'' @ flags @ lit ''_'' @ font @ lit ''_'' @ color_hex
           @ lit ''_'' @ ascender @ lit ''_'' @ descender)"

definition span_text :: "'f text_span \<Rightarrow> pystr" where
  "span_text spn = strip (case sp_text spn of None \<Rightarrow> [] | Some t \<Rightarrow> t)"

definition detailed_char :: "'f float_ops \<Rightarrow> nat \<Rightarrow> 'f text_span \<Rightarrow> 'f content_span" where
  "detailed_char ops page_num spn =
     \<lparr>cs_text = span_text spn,
      cs_page = page_num,
      cs_un_com = un_com_of ops spn,
      cs_color = int_to_hex (case sp_color spn of None \<Rightarrow> 0 | Some c \<Rightarrow> c),
      cs_bbox = (case sp_bbox spn of None \<Rightarrow> [] | Some b \<Rightarrow> b)\<rparr>"

text \<open>The body of the innermost loop, on the pair \<open>(combos, detailed_chars)\<close>.\<close>

definition span_step ::
  "'f float_ops \<Rightarrow> nat \<Rightarrow> 'f text_span \<Rightarrow> counter \<times> 'f content_span list
     \<Rightarrow> counter \<times> 'f content_span list" where
  "span_step ops page_num spn acc =
     (if span_text spn = [] then acc
      else (counter_incr (fst acc) (un_com_of ops spn),
            snd acc @ [detailed_char ops page_num spn]))"

definition line_step ::
  "'f float_ops \<Rightarrow> nat \<Rightarrow> 'f text_line \<Rightarrow> counter \<times> 'f content_span list
     \<Rightarrow> counter \<times> 'f content_span list" where
  "line_step ops page_num line acc =
     fold (span_step ops page_num) (case ln_spans line of None \<Rightarrow> [] | Some ss \<Rightarrow> ss) acc"

definition block_step ::
  "'f float_ops \<Rightarrow> nat \<Rightarrow> 'f text_block \<Rightarrow> counter \<times> 'f content_span list
     \<Rightarrow> counter \<times> 'f content_span list" where
  "block_step ops page_num block acc =
     fold (line_step ops page_num) (case bl_lines block of None \<Rightarrow> [] | Some ls \<Rightarrow> ls) acc"

definition page_step ::
  "'f float_ops \<Rightarrow> nat \<times> 'f pdf_page \<Rightarrow> counter \<times> 'f content_span list
     \<Rightarrow> counter \<times> 'f content_span list" where
  "page_step ops np acc = fold (block_step ops (fst np)) (pg_blocks (snd np)) acc"

definition extract_formatting_combos ::
  "'f float_ops \<Rightarrow> 'f pdf_file \<Rightarrow> error + counter \<times> 'f content_span list" where
  "extract_formatting_combos ops pdf =
     (case pdf of
        Unreadable \<Rightarrow> Inl DocumentUnreadable
      | Readable doc \<Rightarrow> Inr (fold (page_step ops) (enumerate 0 doc) ([], [])))"

definition un_comb_img :: "base_image \<Rightarrow> pystr" where
  "un_comb_img base_image =
     (let width = (case im_width base_image of None \<Rightarrow> 0 | Some w \<Rightarrow> w);
          height = (case im_height base_image of None \<Rightarrow> 0 | Some h \<Rightarrow> h);
          ext = (case im_ext base_image of None \<Rightarrow> lit ''unk'' | Some e \<Rightarrow> e);
          cs = (case im_colorspace base_image of None \<Rightarrow> lit ''unk'' | Some c \<Rightarrow> str_int c);
          bpc = (case im_bpc base_image of None \<Rightarrow> 0 | Some b \<Rightarrow> b);
          size_n = length (case im_image base_image of None \<Rightarrow> [] | Some bs \<Rightarrow> bs)
      in lit ''IMG_'' @ str_int width @ lit ''_'' @ str_int height @ lit ''_'' @ ext
           @ lit ''_'' @ cs @ lit ''_0_0_'' @ str_int bpc @ lit ''_'' @ str_int (int size_n))"

definition image_step :: "base_image \<Rightarrow> counter \<Rightarrow> counter" where
  "image_step base_image combos = counter_incr combos (un_comb_img base_image)"

definition extract_image_combos :: "'f pdf_file \<Rightarrow> error + counter" where
  "extract_image_combos pdf =
     (case pdf of
        Unreadable \<Rightarrow> Inl DocumentUnreadable
      | Readable doc \<Rightarrow> Inr (fold (\<lambda>page combos. fold image_step (pg_images page) combos) doc []))"

subsection \<open>Step 1: training\<close>

text \<open>
  The session state holds the trained Counter. An exception of an extraction leaves
  the handler at once; what the loop has stored so far stays in the session state.
\<close>

record session_state =
  trained_un_combos :: counter

datatype train_outcome = TrainWarning | TrainSuccess | TrainRaised error

fun train_loop ::
  "'f float_ops \<Rightarrow> 'f pdf_file list \<Rightarrow> session_state \<Rightarrow> session_state \<times> train_outcome" where
  "train_loop ops [] st = (st, TrainSuccess)"
| "train_loop ops (file # files) st =
     (case extract_formatting_combos ops file of
        Inl e \<Rightarrow> (st, TrainRaised e)
      | Inr (text_combos, _) \<Rightarrow>
          (case extract_image_combos file of
             Inl e \<Rightarrow> (st, TrainRaised e)
           | Inr image_combos \<Rightarrow>
               let combined_combos = counter_add text_combos image_combos
               in train_loop ops files
                    (st\<lparr>trained_un_combos :=
                          counter_update (trained_un_combos st) combined_combos\<rparr>)))"

definition train_model ::
  "'f float_ops \<Rightarrow> 'f pdf_file list \<Rightarrow> session_state \<Rightarrow> session_state \<times> train_outcome" where
  "train_model ops train_files st =
     (if train_files = [] then (st, TrainWarning)
      else train_loop ops train_files (st\<lparr>trained_un_combos := []\<rparr>))"

subsection \<open>Step 2: validation\<close>

record 'f score_result =
  unexpected :: "pystr set"
  missing :: "pystr set"
  total_used :: int
  unexpected_used :: int
  fraud_score :: rat
  suspicious_chars :: "'f content_span list"

definition score ::
  "counter \<Rightarrow> counter \<Rightarrow> 'f content_span list \<Rightarrow> 'f score_result" where
  "score trained test_combos detailed_chars =
     (let trained_set = keys trained;
          test_set = keys test_combos;
          unexpected = test_set - trained_set;
          missing = trained_set - test_set;
          total_used = sum_list (map snd test_combos);
          unexpected_used = sum (counter_get test_combos) unexpected;
          fraud_score = (if total_used \<noteq> 0
                         then py_round (float_mul (int_truediv unexpected_used total_used) 100) 2
                         else 0)
      in \<lparr>unexpected = unexpected, missing = missing, total_used = total_used,
          unexpected_used = unexpected_used, fraud_score = fraud_score,
          suspicious_chars = filter (\<lambda>c. cs_un_com c \<in> unexpected) detailed_chars\<rparr>)"

definition validate_test_document ::
  "'f float_ops \<Rightarrow> 'f pdf_file option \<Rightarrow> session_state \<Rightarrow> error + 'f score_result" where
  "validate_test_document ops test_file st =
     (if trained_un_combos st = [] then Inl BaselineNotReady
      else case test_file of
        None \<Rightarrow> Inl TestFileMissing
      | Some file \<Rightarrow>
          (case extract_formatting_combos ops file of
             Inl e \<Rightarrow> Inl e
           | Inr (test_text_combos, detailed_chars) \<Rightarrow>
               (case extract_image_combos file of
                  Inl e \<Rightarrow> Inl e
                | Inr test_image_combos \<Rightarrow>
                    Inr (score (trained_un_combos st)
                           (counter_add test_text_combos test_image_combos) detailed_chars))))"

section \<open>Document metadata analysis\<close>

text \<open>
  What the analyzer takes from its libraries is a parameter: \<open>pdf_metadata\<close> is
  \<open>PdfReader(path).metadata\<close> (\<open>Inl\<close> the text of the exception when it raises),
  \<open>json_dumps\<close> is \<open>json.dumps(dict(meta), indent=2)\<close>, \<open>strptime\<close> parses with
  the format \<open>%Y%m%d%H%M%S\<close> (\<open>None\<close> when it raises), \<open>strftime\<close> prints with
  \<open>%Y-%m-%d %H:%M:%S\<close> and \<open>later a b\<close> is \<open>a > b\<close> on two datetimes. A metadata
  value is a \<open>str\<close> or an object of another type, kept with the name of its type.
\<close>

datatype pdf_value = TextString pystr | NonText pystr

type_synonym metadata = "(pystr \<times> pdf_value) list"

record 'd library =
  pdf_metadata :: "pystr \<Rightarrow> pystr + metadata option"
  json_dumps :: "metadata \<Rightarrow> pystr + pystr"
  strptime :: "pystr \<Rightarrow> 'd option"
  strftime :: "'d \<Rightarrow> pystr"
  later :: "'d \<Rightarrow> 'd \<Rightarrow> bool"

definition SUSPICIOUS_KEYWORDS :: "pystr list" where
  "SUSPICIOUS_KEYWORDS = map lit
     [''microsoft word'', ''libreoffice'', ''cutepdf'',
      ''openoffice'', ''pdf creator'', ''ilovepdf'', ''smallpdf'', ''pdfescape'',
      ''wondershare'', ''foxit'', ''nitro'', ''sejda'', ''online2pdf'',
      ''Microsoft: Print To PDF'', ''Adobe'']"

definition remove_non_ascii :: "pystr \<Rightarrow> pystr" where
  "remove_non_ascii s = filter (\<lambda>c. c < 128) s"

text \<open>\<open>str.lower\<close> on ASCII text, and the substring test \<open>w in s\<close>.\<close>

definition lower :: "pystr \<Rightarrow> pystr" where
  "lower s = map (\<lambda>c. if 65 \<le> c \<and> c \<le> 90 then c + 32 else c) s"

fun contains :: "pystr \<Rightarrow> pystr \<Rightarrow> bool" where
  "contains [] w = (w = [])"
| "contains (c # cs) w = (take (length w) (c # cs) = w \<or> contains cs w)"

text \<open>\<open>os.path.basename\<close> of a POSIX path.\<close>

definition basename :: "pystr \<Rightarrow> pystr" where
  "basename p = rev (takeWhile (\<lambda>c. c \<noteq> 47) (rev p))"

text \<open>
  \<open>clean_pdf_date\<close>: a value without \<open>startswith\<close> raises inside the \<open>try\<close>, and
  the bare \<open>except\<close> returns \<open>None\<close>.
\<close>

definition clean_pdf_date :: "'d library \<Rightarrow> pdf_value \<Rightarrow> 'd option" where
  "clean_pdf_date lib date_str =
     (case date_str of
        NonText ty \<Rightarrow> None
      | TextString s \<Rightarrow>
          let s' = (if take 2 s = lit ''D:'' then drop 2 s else s)
          in strptime lib (take 14 s'))"

text \<open>\<open>meta.get(key, '') if meta else ''\<close>: an empty or absent \<open>meta\<close> is falsy.\<close>

definition meta_truthy :: "metadata option \<Rightarrow> bool" where
  "meta_truthy meta = (case meta of None \<Rightarrow> False | Some kvs \<Rightarrow> kvs \<noteq> [])"

definition meta_get :: "metadata option \<Rightarrow> pystr \<Rightarrow> pdf_value" where
  "meta_get meta key =
     (case meta of
        None \<Rightarrow> TextString []
      | Some kvs \<Rightarrow> (case map_of kvs key of None \<Rightarrow> TextString [] | Some v \<Rightarrow> v))"

record analysis =
  File_Name :: pystr
  Edited :: "bool option"
  Reasons :: pystr
  Creation_Date :: pystr
  Modification_Date :: pystr
  Producer :: pdf_value
  Creator :: pdf_value
  Title :: pdf_value
  Full_Metadata :: pystr

definition attribute_error :: "pystr \<Rightarrow> pystr" where
  "attribute_error ty = [39] @ ty @ [39] @ lit '' object has no attribute '' @ [39] @ lit ''encode'' @ [39]"

definition word_step :: "pystr \<Rightarrow> pystr \<Rightarrow> pystr \<Rightarrow> bool \<times> pystr list \<Rightarrow> bool \<times> pystr list" where
  "word_step key val word acc =
     (if contains (lower val) (lower word)
      then (True, snd acc @ [lit ''Suspicious keyword '' @ [39] @ word @ [39] @ lit '' found in ''
                               @ key @ lit '': '' @ val])
      else acc)"

fun scan_keys ::
  "metadata option \<Rightarrow> pystr list \<Rightarrow> bool \<times> pystr list \<Rightarrow> pystr + bool \<times> pystr list" where
  "scan_keys meta [] acc = Inr acc"
| "scan_keys meta (key # ks) acc =
     (case meta_get meta key of
        NonText ty \<Rightarrow> Inl (attribute_error ty)
      | TextString v \<Rightarrow>
          let val = remove_non_ascii v
          in scan_keys meta ks (fold (word_step key val) SUSPICIOUS_KEYWORDS acc))"

text \<open>The body of the \<open>try\<close>: \<open>Inl\<close> carries \<open>str(e)\<close> of the exception raised.\<close>

definition analyze_pdf_try :: "'d library \<Rightarrow> pystr \<Rightarrow> pystr + analysis" where
  "analyze_pdf_try lib file_path =
     (case pdf_metadata lib file_path of
        Inl e \<Rightarrow> Inl e
      | Inr meta \<Rightarrow>
          (case (if meta_truthy meta then json_dumps lib (the meta) else Inr (lit ''{}'')) of
             Inl e \<Rightarrow> Inl e
           | Inr full \<Rightarrow>
               let creation_date = (if meta_truthy meta
                                    then clean_pdf_date lib (meta_get meta (lit ''/CreationDate''))
                                    else None);
                   mod_date = (if meta_truthy meta
                               then clean_pdf_date lib (meta_get meta (lit ''/ModDate''))
                               else None);
                   date_edit = (case (creation_date, mod_date) of
                                  (Some c, Some m) \<Rightarrow> later lib m c
                                | _ \<Rightarrow> False);
                   acc = (date_edit,
                          if date_edit then [lit ''Modification date is later than creation date.'']
                          else [])
               in (case scan_keys meta [lit ''/Producer'', lit ''/Creator'', lit ''/Title''] acc of
                     Inl e \<Rightarrow> Inl e
                   | Inr (edited, reasons) \<Rightarrow>
                       Inr \<lparr>File_Name = basename file_path,
                            Edited = Some edited,
                            Reasons = join [10] reasons,
                            Creation_Date = (case creation_date of None \<Rightarrow> [] | Some c \<Rightarrow> strftime lib c),
                            Modification_Date = (case mod_date of None \<Rightarrow> [] | Some m \<Rightarrow> strftime lib m),
                            Producer = meta_get meta (lit ''/Producer''),
                            Creator = meta_get meta (lit ''/Creator''),
                            Title = meta_get meta (lit ''/Title''),
                            Full_Metadata = full\<rparr>)))"

definition error_result :: "pystr \<Rightarrow> pystr \<Rightarrow> analysis" where
  "error_result file_path e =
     \<lparr>File_Name = basename file_path,
      Edited = None,
      Reasons = lit ''Error: '' @ e,
      Creation_Date = [],
      Modification_Date = [],
      Producer = TextString [],
      Creator = TextString [],
      Title = TextString [],
      Full_Metadata = lit ''{}''\<rparr>"

definition analyze_pdf :: "'d library \<Rightarrow> pystr \<Rightarrow> analysis" where
  "analyze_pdf lib file_path =
     (case analyze_pdf_try lib file_path of
        Inr result \<Rightarrow> result
      | Inl e \<Rightarrow> error_result file_path e)"

section \<open>Auxiliary definitions for the properties\<close>

subsection \<open>Well-formed counters\<close>

text \<open>The keys of a dict are distinct; the counts that the extraction stores are positive.\<close>

definition good :: "counter \<Rightarrow> bool" where
  "good c = (distinct (map fst c) \<and> (\<forall>v \<in> snd ` set c. 0 < v))"

subsection \<open>The spans of a document, in reading order\<close>

definition line_spans :: "'f text_line \<Rightarrow> 'f text_span list" where
  "line_spans l = (case ln_spans l of None \<Rightarrow> [] | Some ss \<Rightarrow> ss)"

definition block_spans :: "'f text_block \<Rightarrow> 'f text_span list" where
  "block_spans b = concat (map line_spans (case bl_lines b of None \<Rightarrow> [] | Some ls \<Rightarrow> ls))"

definition page_spans :: "nat \<times> 'f pdf_page \<Rightarrow> (nat \<times> 'f text_span) list" where
  "page_spans np = map (Pair (fst np)) (concat (map block_spans (pg_blocks (snd np))))"

definition doc_spans :: "'f pdf_page list \<Rightarrow> (nat \<times> 'f text_span) list" where
  "doc_spans doc = concat (map page_spans (enumerate 0 doc))"

definition doc_images :: "'f pdf_page list \<Rightarrow> base_image list" where
  "doc_images doc = concat (map pg_images doc)"

definition has_text :: "nat \<times> 'f text_span \<Rightarrow> bool" where
  "has_text ns = (span_text (snd ns) \<noteq> [])"

text \<open>
  How often a key occurs in a training document: the number of its spans with text
  that carry the key, plus the number of its images that carry it.
\<close>

definition key_occurrences :: "'f float_ops \<Rightarrow> 'f pdf_file \<Rightarrow> pystr \<Rightarrow> int" where
  "key_occurrences ops f k =
     (case f of
        Unreadable \<Rightarrow> 0
      | Readable doc \<Rightarrow>
          int (length (filter (\<lambda>ns. has_text ns \<and> un_com_of ops (snd ns) = k) (doc_spans doc)))
          + int (length (filter (\<lambda>im. un_comb_img im = k) (doc_images doc))))"

text \<open>The document with every whitespace-only span deleted.\<close>

definition line_without_blanks :: "'f text_line \<Rightarrow> 'f text_line" where
  "line_without_blanks l =
     l\<lparr>ln_spans := map_option (filter (\<lambda>s. span_text s \<noteq> [])) (ln_spans l)\<rparr>"

definition block_without_blanks :: "'f text_block \<Rightarrow> 'f text_block" where
  "block_without_blanks b = b\<lparr>bl_lines := map_option (map line_without_blanks) (bl_lines b)\<rparr>"

definition without_blanks :: "'f pdf_page list \<Rightarrow> 'f pdf_page list" where
  "without_blanks doc = map (\<lambda>p. p\<lparr>pg_blocks := map block_without_blanks (pg_blocks p)\<rparr>) doc"

subsection \<open>The formulas as the specification words them\<close>

text \<open>
  \<open>round(100 * unexpected_occurrences / total_occurrences, 2)\<close>, the text key with an
  absent style-flags field read as 0, and the image key made of the six fields only.
\<close>

definition spec_anomaly_percent :: "int \<Rightarrow> int \<Rightarrow> rat" where
  "spec_anomaly_percent unexpected_occurrences total_occurrences =
     (if total_occurrences = 0 then 0
      else py_round (int_truediv (100 * unexpected_occurrences) total_occurrences) 2)"

definition spec_text_key :: "'f float_ops \<Rightarrow> 'f text_span \<Rightarrow> pystr" where
  "spec_text_key ops s =
     un_com_of ops (s\<lparr>sp_flags := Some (case sp_flags s of None \<Rightarrow> 0 | Some f \<Rightarrow> f)\<rparr>)"

definition image_fields :: "base_image \<Rightarrow> pystr list" where
  "image_fields im =
     [str_int (case im_width im of None \<Rightarrow> 0 | Some w \<Rightarrow> w),
      str_int (case im_height im of None \<Rightarrow> 0 | Some h \<Rightarrow> h),
      (case im_ext im of None \<Rightarrow> lit ''unk'' | Some e \<Rightarrow> e),
      (case im_colorspace im of None \<Rightarrow> lit ''unk'' | Some c \<Rightarrow> str_int c),
      str_int (case im_bpc im of None \<Rightarrow> 0 | Some b \<Rightarrow> b),
      str_int (int (length (case im_image im of None \<Rightarrow> [] | Some bs \<Rightarrow> bs)))]"

definition spec_image_key :: "base_image \<Rightarrow> pystr" where
  "spec_image_key im = lit ''IMG_'' @ join (lit ''_'') (image_fields im)"

text \<open>The characters of the text of a Python float: digits, sign, point, exponent, inf, nan.\<close>

definition float_chars :: "nat set" where
  "float_chars = set (lit ''0123456789.e+-infa'')"

subsection \<open>Sample inputs\<close>

text \<open>
  Float operations for the samples, whose floats are whole numbers:
  \<open>round(x, 1)\<close> as modelled above, and the text \<open>12.0\<close> for 12.
\<close>

definition sample_ops :: "rat float_ops" where
  "sample_ops = \<lparr>float_round1 = (\<lambda>x. py_round x 1),
                  float_str = (\<lambda>x. str_int \<lfloor>x\<rfloor> @ lit ''.0'')\<rparr>"

definition arial_12_black :: "rat text_span" where
  "arial_12_black =
     \<lparr>sp_text = Some (lit '' Invoice ''), sp_font = Some (lit ''Arial''), sp_size = Some 12,
      sp_color = Some 0, sp_flags = Some 0, sp_ascender = Some 1, sp_descender = Some 0,
      sp_bbox = Some [10, 10, 60, 22]\<rparr>"

definition arial_14_red :: "rat text_span" where
  "arial_14_red =
     \<lparr>sp_text = Some (lit ''9000''), sp_font = Some (lit ''Arial''), sp_size = Some 14,
      sp_color = Some 16711680, sp_flags = Some 0, sp_ascender = Some 1, sp_descender = Some 0,
      sp_bbox = Some [70, 10, 110, 24]\<rparr>"

definition blank_span :: "rat text_span" where
  "blank_span = arial_14_red\<lparr>sp_text := Some (lit ''   '')\<rparr>"

definition bare_span :: "rat text_span" where
  "bare_span =
     \<lparr>sp_text = Some (lit ''x''), sp_font = None, sp_size = None, sp_color = None,
      sp_flags = None, sp_ascender = None, sp_descender = None, sp_bbox = None\<rparr>"

definition sample_image :: base_image where
  "sample_image =
     \<lparr>im_width = Some 1, im_height = Some 2, im_ext = Some (lit ''png''),
      im_colorspace = Some 3, im_bpc = Some 8, im_image = Some [137, 80, 78, 71]\<rparr>"

definition page_of :: "rat text_span list \<Rightarrow> base_image list \<Rightarrow> rat pdf_page" where
  "page_of spans images =
     \<lparr>pg_blocks = [\<lparr>bl_lines = Some [\<lparr>ln_spans = Some spans\<rparr>]\<rparr>], pg_images = images\<rparr>"

definition genuine_doc :: "rat pdf_page list" where
  "genuine_doc = [page_of [arial_12_black] []]"

definition tampered_doc :: "rat pdf_page list" where
  "tampered_doc = [page_of (replicate 137 arial_12_black @ replicate 23 arial_14_red) []]"

definition key_12_black :: pystr where
  "key_12_black = lit ''12.0_0_Arial_#000000_1.0_0.0''"

definition key_14_red :: pystr where
  "key_14_red = lit ''14.0_0_Arial_#FF0000_1.0_0.0''"

definition sample_library :: "nat library" where
  "sample_library =
     \<lparr>pdf_metadata = (\<lambda>p. if p = lit ''in/a.pdf'' then Inl (lit ''EOF marker not found'')
                           else Inr None),
      json_dumps = (\<lambda>m. Inr (lit ''{}'')),
      strptime = (\<lambda>s. None),
      strftime = (\<lambda>d. []),
      later = (\<lambda>a b. b < a)\<rparr>"

subsection \<open>Rounding to binary64\<close>

lemma rne_of_int: "rne (of_int n) = n"
  by (simp add: rne_def)

lemma rne_lower: "\<lfloor>x\<rfloor> \<le> rne x"
  by (simp add: rne_def Let_def)

lemma rne_upper: "rne x \<le> \<lfloor>x\<rfloor> + 1"
  by (simp add: rne_def Let_def)

lemma rne_mono:
  assumes "x \<le> y"
  shows "rne x \<le> rne y"
proof (cases "\<lfloor>x\<rfloor> = \<lfloor>y\<rfloor>")
  case True
  with assms show ?thesis by (auto simp: rne_def Let_def)
next
  case False
  then have "\<lfloor>x\<rfloor> < \<lfloor>y\<rfloor>" using floor_mono [OF assms] by linarith
  then show ?thesis using rne_upper [of x] rne_lower [of y] by linarith
qed

lemma log2_up_bounds:
  "1 \<le> x \<Longrightarrow> 2 powi (log2_up x) \<le> x \<and> x < 2 powi (log2_up x + 1)"
proof (induction x rule: log2_up.induct)
  case (1 x)
  show ?case
  proof (cases "x < 2")
    case True
    with 1 show ?thesis by (simp add: log2_up.simps [of x])
  next
    case False
    then have h: "1 \<le> x / 2" by simp
    from 1(1) [OF False h] show ?thesis
      using False by (simp add: log2_up.simps [of x] power_int_add field_simps)
  qed
qed

lemma log2_dn_bounds:
  "0 < x \<Longrightarrow> x < 1 \<Longrightarrow> 2 powi (log2_dn x) \<le> x \<and> x < 2 powi (log2_dn x + 1)"
proof (induction x rule: log2_dn.induct)
  case (1 x)
  show ?case
  proof (cases "1 \<le> 2 * x")
    case True
    then have "log2_dn (2 * x) = 0" by (simp add: log2_dn.simps [of "2 * x"])
    then have "log2_dn x = - 1" using 1(2,3) by (simp add: log2_dn.simps [of x])
    then show ?thesis using True 1(3) by (simp add: power_int_minus)
  next
    case False
    have g: "\<not> (x \<le> 0 \<or> 1 \<le> x)" using 1(2,3) by simp
    have h: "0 < 2 * x" "2 * x < 1" using 1(2) False by simp_all
    have e: "log2_dn x = log2_dn (2 * x) - 1" using g by (simp add: log2_dn.simps [of x])
    define k where "k = log2_dn (2 * x)"
    have p1: "(2::rat) powi (k - 1) = 2 powi k / 2" by (simp add: power_int_diff)
    have p2: "(2::rat) powi (k + 1) = 2 powi k * 2" by (simp add: power_int_add)
    have "2 powi k \<le> 2 * x \<and> 2 * x < 2 powi (k + 1)"
      using 1(1) [OF g h] by (simp add: k_def)
    then have "2 powi (k - 1) \<le> x \<and> x < 2 powi (k - 1 + 1)"
      unfolding p1 p2 by simp
    then show ?thesis unfolding e k_def .
  qed
qed

lemma ilog2_bounds: "0 < x \<Longrightarrow> 2 powi (ilog2 x) \<le> x \<and> x < 2 powi (ilog2 x + 1)"
  using log2_up_bounds [of x] log2_dn_bounds [of x] by (simp add: ilog2_def)

lemma two_powi_mono: "a \<le> b \<Longrightarrow> (2::rat) powi a \<le> 2 powi b"
  by (rule power_int_increasing) simp_all

lemma ilog2_mono:
  assumes "0 < x" "x \<le> y"
  shows "ilog2 x \<le> ilog2 y"
proof (rule ccontr)
  assume "\<not> ilog2 x \<le> ilog2 y"
  then have "ilog2 y + 1 \<le> ilog2 x" by simp
  then have "(2::rat) powi (ilog2 y + 1) \<le> 2 powi (ilog2 x)" by (rule two_powi_mono)
  also have "\<dots> \<le> x" using ilog2_bounds [OF assms(1)] by simp
  finally have "2 powi (ilog2 y + 1) \<le> y" using assms(2) by simp
  moreover have "y < 2 powi (ilog2 y + 1)" using ilog2_bounds [of y] assms by simp
  ultimately show False by simp
qed

lemma fl_pos:
  "0 < x \<Longrightarrow> fl x = of_int (rne (x / 2 powi (fexp x - 52))) * 2 powi (fexp x - 52)"
  by (simp add: fl_def Let_def)

lemma fl_nonneg:
  assumes "0 \<le> x"
  shows "0 \<le> fl x"
proof (cases "x = 0")
  case True
  then show ?thesis by (simp add: fl_def)
next
  case False
  then have p: "0 < x" using assms by simp
  have "0 \<le> x / 2 powi (fexp x - 52)" using p by simp
  then have "rne 0 \<le> rne (x / 2 powi (fexp x - 52))" by (rule rne_mono)
  then have "0 \<le> rne (x / 2 powi (fexp x - 52))" using rne_of_int [of 0] by simp
  then show ?thesis by (simp add: fl_pos [OF p])
qed

lemma fl_upper:
  assumes "0 < x"
  shows "fl x \<le> 2 powi (fexp x + 1)"
proof -
  let ?u = "(2::rat) powi (fexp x - 52)"
  have u: "0 < ?u" by simp
  have "x < 2 powi (ilog2 x + 1)" using ilog2_bounds [OF assms] by simp
  also have "\<dots> \<le> 2 powi (fexp x + 1)" by (rule two_powi_mono) (simp add: fexp_def)
  finally have "x \<le> 2 powi (fexp x + 1)" by simp
  then have "x / ?u \<le> 2 powi (fexp x + 1) / ?u" using u by (simp add: divide_right_mono)
  also have "2 powi (fexp x + 1) / ?u = (2::rat) powi 53"
    by (simp add: power_int_diff power_int_add)
  also have "\<dots> = of_int (2 ^ 53)" by simp
  finally have "rne (x / ?u) \<le> rne (of_int (2 ^ 53))" by (rule rne_mono)
  then have "rne (x / ?u) \<le> 2 ^ 53" by (simp only: rne_of_int)
  then have "(of_int (rne (x / ?u)) :: rat) \<le> of_int (2 ^ 53)" by (simp only: of_int_le_iff)
  then have "of_int (rne (x / ?u)) * ?u \<le> of_int (2 ^ 53) * ?u"
    using u by (simp only: mult_le_cancel_right_pos)
  also have "of_int (2 ^ 53) * ?u = (2::rat) powi 53 * ?u" by simp
  also have "\<dots> = 2 powi (fexp x + 1)" by (simp add: power_int_diff power_int_add)
  finally show ?thesis by (simp add: fl_pos [OF assms])
qed

lemma fl_lower:
  assumes "0 < x" "- 1022 \<le> ilog2 x"
  shows "2 powi (fexp x) \<le> fl x"
proof -
  let ?u = "(2::rat) powi (fexp x - 52)"
  have u: "0 < ?u" by simp
  have e: "fexp x = ilog2 x" using assms(2) by (simp add: fexp_def)
  have "2 powi (fexp x) \<le> x" using ilog2_bounds [OF assms(1)] e by simp
  then have "2 powi (fexp x) / ?u \<le> x / ?u" using u by (simp add: divide_right_mono)
  moreover have "2 powi (fexp x) / ?u = (2::rat) powi 52"
    by (simp add: power_int_diff)
  moreover have "(2::rat) powi 52 = of_int (2 ^ 52)" by simp
  ultimately have "rne (of_int (2 ^ 52)) \<le> rne (x / ?u)" by (intro rne_mono) simp
  then have "2 ^ 52 \<le> rne (x / ?u)" by (simp only: rne_of_int)
  then have "(of_int (2 ^ 52) :: rat) \<le> of_int (rne (x / ?u))" by (simp only: of_int_le_iff)
  then have k: "of_int (2 ^ 52) * ?u \<le> of_int (rne (x / ?u)) * ?u"
    using u by (simp only: mult_le_cancel_right_pos)
  have "(2::rat) powi (fexp x) = 2 powi 52 * ?u" by (simp add: power_int_diff)
  also have "\<dots> = of_int (2 ^ 52) * ?u" by simp
  also note k
  finally show ?thesis by (simp only: fl_pos [OF assms(1)])
qed

lemma fl_mono:
  assumes "0 \<le> x" "x \<le> y"
  shows "fl x \<le> fl y"
proof (cases "x = 0")
  case True
  then show ?thesis using fl_nonneg [of y] assms by (simp add: fl_def)
next
  case False
  then have px: "0 < x" and py: "0 < y" using assms by simp_all
  have le: "fexp x \<le> fexp y" using ilog2_mono [OF px assms(2)] by (simp add: fexp_def)
  show ?thesis
  proof (cases "fexp x = fexp y")
    case True
    let ?u = "(2::rat) powi (fexp y - 52)"
    have "x / ?u \<le> y / ?u" using assms(2) by (simp add: divide_right_mono)
    then have "rne (x / ?u) \<le> rne (y / ?u)" by (rule rne_mono)
    then have "(of_int (rne (x / ?u)) :: rat) * ?u \<le> of_int (rne (y / ?u)) * ?u"
      by (simp add: mult_right_mono)
    then show ?thesis by (simp add: fl_pos [OF px] fl_pos [OF py] True)
  next
    case False
    then have lt: "fexp x + 1 \<le> fexp y" using le by simp
    then have "- 1022 < fexp y" by (simp add: fexp_def)
    then have n: "- 1022 \<le> ilog2 y" by (simp add: fexp_def max_def split: if_splits)
    have "fl x \<le> 2 powi (fexp x + 1)" by (rule fl_upper [OF px])
    also have "\<dots> \<le> 2 powi (fexp y)" using lt by (rule two_powi_mono)
    also have "\<dots> \<le> fl y" by (rule fl_lower [OF py n])
    finally show ?thesis .
  qed
qed

lemma fl_1: "fl 1 = 1"
  by code_simp

lemma fl_100: "fl 100 = 100"
  by code_simp

lemma fl_unit_interval: "0 \<le> x \<Longrightarrow> x \<le> 1 \<Longrightarrow> 0 \<le> fl x \<and> fl x \<le> 1"
  using fl_nonneg [of x] fl_mono [of x 1] by (simp add: fl_1)

lemma fl_percent_interval: "0 \<le> x \<Longrightarrow> x \<le> 100 \<Longrightarrow> 0 \<le> fl x \<and> fl x \<le> 100"
  using fl_nonneg [of x] fl_mono [of x 100] by (simp add: fl_100)

lemma py_round2_percent:
  assumes "0 \<le> x" "x \<le> 100"
  shows "0 \<le> py_round x 2 \<and> py_round x 2 \<le> 100"
proof -
  have "rne (of_int 0) \<le> rne (x * 100)" using assms(1) by (intro rne_mono) simp
  then have lo: "0 \<le> rne (x * 100)" by (simp only: rne_of_int)
  have "rne (x * 100) \<le> rne (of_int 10000)" using assms(2) by (intro rne_mono) simp
  then have hi: "rne (x * 100) \<le> 10000" by (simp only: rne_of_int)
  have "0 \<le> (of_int (rne (x * 100)) :: rat) / 100" using lo by simp
  moreover have "(of_int (rne (x * 100)) :: rat) / 100 \<le> 100"
  proof -
    have "(of_int (rne (x * 100)) :: rat) \<le> of_int 10000" using hi by (simp only: of_int_le_iff)
    then show ?thesis by simp
  qed
  ultimately show ?thesis
    using fl_percent_interval [of "of_int (rne (x * 100)) / 100"] by (simp add: py_round_def)
qed

lemma percent_bounds:
  assumes "0 \<le> u" "u \<le> t" "0 < t"
  shows "0 \<le> py_round (float_mul (int_truediv u t) 100) 2
         \<and> py_round (float_mul (int_truediv u t) 100) 2 \<le> 100"
proof -
  have q: "0 \<le> (of_int u :: rat) / of_int t" "(of_int u :: rat) / of_int t \<le> 1"
    using assms by simp_all
  have d: "0 \<le> int_truediv u t" "int_truediv u t \<le> 1"
    using fl_unit_interval [OF q] by (simp_all add: int_truediv_def)
  then have "0 \<le> int_truediv u t * 100" "int_truediv u t * 100 \<le> 100" by simp_all
  then have "0 \<le> float_mul (int_truediv u t) 100" "float_mul (int_truediv u t) 100 \<le> 100"
    using fl_percent_interval [of "int_truediv u t * 100"] by (simp_all add: float_mul_def)
  then show ?thesis by (rule py_round2_percent)
qed

subsection \<open>Counters\<close>

lemma keys_dict_set: "keys (dict_set c k v) = insert k (keys c)"
  by (induction c) (force simp: keys_def split: if_splits)+

lemma map_of_dict_set: "map_of (dict_set c k v) = (map_of c)(k \<mapsto> v)"
  by (induction c) (auto simp: fun_eq_iff)

lemma counter_get_dict_set:
  "counter_get (dict_set c k v) k' = (if k' = k then v else counter_get c k')"
  by (simp add: counter_get_def map_of_dict_set)

lemma counter_get_absent: "k \<notin> keys c \<Longrightarrow> counter_get c k = 0"
  by (simp add: counter_get_def keys_def map_of_eq_None_iff [THEN iffD2])

lemma values_dict_set: "snd ` set (dict_set c k v) \<subseteq> insert v (snd ` set c)"
  by (induction c) (force split: if_splits)+

lemma distinct_dict_set: "distinct (map fst c) \<Longrightarrow> distinct (map fst (dict_set c k v))"
proof (induction c)
  case Nil
  then show ?case by simp
next
  case (Cons p c)
  have "fst ` set (dict_set c k v) = insert k (fst ` set c)"
    using keys_dict_set [of c k v] by (simp add: keys_def)
  with Cons show ?case by (cases p) auto
qed

lemma good_dict_set:
  assumes "good c" "0 < v"
  shows "good (dict_set c k v)"
proof -
  have "\<forall>w \<in> snd ` set (dict_set c k v). 0 < w"
  proof
    fix w
    assume "w \<in> snd ` set (dict_set c k v)"
    then have "w \<in> insert v (snd ` set c)" using values_dict_set [of c k v] by blast
    then show "0 < w" using assms by (auto simp: good_def)
  qed
  then show ?thesis using assms(1) by (simp add: good_def distinct_dict_set)
qed

lemma good_Nil: "good []"
  by (simp add: good_def)

lemma counter_get_nonneg: "good c \<Longrightarrow> 0 \<le> counter_get c k"
proof -
  assume g: "good c"
  show ?thesis
  proof (cases "map_of c k")
    case None
    then show ?thesis by (simp add: counter_get_def)
  next
    case (Some v)
    then have "(k, v) \<in> set c" by (rule map_of_SomeD)
    then have "v \<in> snd ` set c" by force
    then show ?thesis using g Some by (auto simp: good_def counter_get_def)
  qed
qed

lemma counter_get_pos: "good c \<Longrightarrow> k \<in> keys c \<Longrightarrow> 0 < counter_get c k"
proof -
  assume g: "good c" and k: "k \<in> keys c"
  then obtain v where "map_of c k = Some v"
    by (auto simp: keys_def good_def dest!: weak_map_of_SomeI)
  moreover from this have "v \<in> snd ` set c" by (force dest: map_of_SomeD)
  ultimately show ?thesis using g by (auto simp: good_def counter_get_def)
qed

lemma good_counter_incr: "good c \<Longrightarrow> good (counter_incr c k)"
  using counter_get_nonneg [of c k] by (simp add: counter_incr_def good_dict_set)

lemma counter_get_incr:
  "counter_get (counter_incr c k) k' = counter_get c k' + (if k' = k then 1 else 0)"
  by (simp add: counter_incr_def counter_get_dict_set)

lemma keys_counter_incr: "keys (counter_incr c k) = insert k (keys c)"
  by (simp add: counter_incr_def keys_dict_set)

text \<open>The sum of the values of a dict is the sum of its lookups over its keys.\<close>

lemma sum_list_values:
  "distinct (map fst c) \<Longrightarrow> sum_list (map snd c) = sum (counter_get c) (keys c)"
proof (induction c)
  case Nil
  then show ?case by (simp add: keys_def)
next
  case (Cons p c)
  obtain k v where p: "p = (k, v)" by (cases p)
  have nk: "k \<notin> keys c" using Cons.prems p by (auto simp: keys_def)
  have eq: "sum (counter_get (p # c)) (keys c) = sum (counter_get c) (keys c)"
    by (rule sum.cong) (use nk p in \<open>auto simp: counter_get_def\<close>)
  have "keys (p # c) = insert k (keys c)" by (simp add: keys_def p)
  then have "sum (counter_get (p # c)) (keys (p # c))
             = counter_get (p # c) k + sum (counter_get (p # c)) (keys c)"
    using nk by (simp add: keys_def)
  also have "counter_get (p # c) k = v" by (simp add: counter_get_def p)
  finally show ?case using Cons eq by (simp add: p)
qed

lemma sum_list_filter_values:
  "distinct (map fst c) \<Longrightarrow>
   sum_list (map snd (filter (\<lambda>kv. fst kv \<notin> T) c)) = sum (counter_get c) (keys c - T)"
proof (induction c)
  case Nil
  then show ?case by (simp add: keys_def)
next
  case (Cons p c)
  obtain k v where p: "p = (k, v)" by (cases p)
  have nk: "k \<notin> keys c" using Cons.prems p by (auto simp: keys_def)
  have eq: "sum (counter_get (p # c)) (keys c - T) = sum (counter_get c) (keys c - T)"
    by (rule sum.cong) (use nk p in \<open>auto simp: counter_get_def\<close>)
  have ih: "sum_list (map snd (filter (\<lambda>kv. fst kv \<notin> T) c)) = sum (counter_get c) (keys c - T)"
    using Cons by simp
  show ?case
  proof (cases "k \<in> T")
    case True
    then have "keys (p # c) - T = keys c - T" by (auto simp: keys_def p)
    then show ?thesis using True ih eq by (simp add: p)
  next
    case False
    then have "keys (p # c) - T = insert k (keys c - T)" by (auto simp: keys_def p)
    moreover have "k \<notin> keys c - T" using nk by simp
    moreover have "finite (keys c - T)" by (simp add: keys_def)
    ultimately have "sum (counter_get (p # c)) (keys (p # c) - T)
                     = counter_get (p # c) k + sum (counter_get (p # c)) (keys c - T)"
      by simp
    also have "counter_get (p # c) k = v" by (simp add: counter_get_def p)
    finally show ?thesis using False ih eq by (simp add: p)
  qed
qed

lemma unexpected_le_total:
  assumes "good c"
  shows "0 \<le> sum (counter_get c) (keys c - T)"
    and "sum (counter_get c) (keys c - T) \<le> sum_list (map snd c)"
proof -
  show "0 \<le> sum (counter_get c) (keys c - T)"
    by (rule sum_nonneg) (rule counter_get_nonneg [OF assms])
  have "sum (counter_get c) (keys c - T) \<le> sum (counter_get c) (keys c)"
    by (rule sum_mono2) (auto simp: keys_def counter_get_nonneg [OF assms])
  then show "sum (counter_get c) (keys c - T) \<le> sum_list (map snd c)"
    using assms by (simp add: sum_list_values good_def)
qed

lemma total_pos: "good c \<Longrightarrow> c \<noteq> [] \<Longrightarrow> 0 < sum_list (map snd c)"
proof (induction c)
  case Nil
  then show ?case by simp
next
  case (Cons p c)
  have "0 < snd p" using Cons.prems by (simp add: good_def)
  moreover have "0 \<le> sum_list (map snd c)"
    by (rule sum_list_nonneg) (use Cons.prems in \<open>auto simp: good_def\<close>)
  ultimately show ?case by simp
qed

lemma keys_eq_dom: "keys c = dom (map_of c)"
  by (simp add: keys_def dom_map_of_conv_image_fst)

lemma good_fold_dict_set:
  assumes "\<And>x r. good r \<Longrightarrow> good (f x r)"
  shows "good acc \<Longrightarrow> good (fold f xs acc)"
  by (induction xs arbitrary: acc) (simp_all add: assms)

lemma good_counter_add: "good (counter_add a b)"
proof -
  have 1: "good (fold (\<lambda>(elem, count) result.
                         let newcount = count + counter_get b elem
                         in if 0 < newcount then dict_set result elem newcount else result) a [])"
    by (rule good_fold_dict_set) (auto simp: good_Nil Let_def good_dict_set)
  show ?thesis
    unfolding counter_add_def Let_def
    by (rule good_fold_dict_set) (use 1 in \<open>auto simp: Let_def good_dict_set\<close>)
qed

lemma counter_get_add_fold1:
  "distinct (map fst a) \<Longrightarrow>
   counter_get (fold (\<lambda>(elem, count) result.
                        if 0 < count + counter_get b elem
                        then dict_set result elem (count + counter_get b elem) else result) a acc) k
   = (case map_of a k of
        None \<Rightarrow> counter_get acc k
      | Some n \<Rightarrow> if 0 < n + counter_get b k then n + counter_get b k else counter_get acc k)"
proof (induction a arbitrary: acc)
  case Nil
  then show ?case by simp
next
  case (Cons p a)
  obtain k0 n0 where p: "p = (k0, n0)" by (cases p)
  have d: "distinct (map fst a)" and nk: "map_of a k0 = None"
    using Cons.prems p by (auto simp: map_of_eq_None_iff)
  show ?case
    using Cons.IH [OF d] nk
    by (auto simp: p Let_def counter_get_dict_set split: option.splits)
qed

lemma counter_get_add_fold2:
  "distinct (map fst b) \<Longrightarrow>
   counter_get (fold (\<lambda>(elem, count) result.
                        if elem \<notin> A \<and> 0 < count then dict_set result elem count else result)
                     b acc) k
   = (case map_of b k of
        None \<Rightarrow> counter_get acc k
      | Some n \<Rightarrow> if k \<notin> A \<and> 0 < n then n else counter_get acc k)"
proof (induction b arbitrary: acc)
  case Nil
  then show ?case by simp
next
  case (Cons p b)
  obtain k0 n0 where p: "p = (k0, n0)" by (cases p)
  have d: "distinct (map fst b)" and nk: "map_of b k0 = None"
    using Cons.prems p by (auto simp: map_of_eq_None_iff)
  show ?case
    using Cons.IH [OF d] nk
    by (auto simp: p counter_get_dict_set split: option.splits)
qed

lemma counter_get_Nil: "counter_get [] k = 0"
  by (simp add: counter_get_def)

lemma counter_get_add:
  assumes "good a" "good b"
  shows "counter_get (counter_add a b) k = counter_get a k + counter_get b k"
proof -
  have da: "distinct (map fst a)" and db: "distinct (map fst b)"
    using assms by (simp_all add: good_def)
  define X where "X = (case map_of a k of None \<Rightarrow> 0
                       | Some n \<Rightarrow> if 0 < n + counter_get b k then n + counter_get b k else 0)"
  have f1: "counter_get (fold (\<lambda>(elem, count) result.
                        if 0 < count + counter_get b elem
                        then dict_set result elem (count + counter_get b elem) else result) a []) k
            = X"
    unfolding X_def by (simp only: counter_get_add_fold1 [OF da] counter_get_Nil)
  have r: "counter_get (counter_add a b) k
           = (case map_of b k of None \<Rightarrow> X
              | Some m \<Rightarrow> if k \<notin> keys a \<and> 0 < m then m else X)"
    unfolding counter_add_def Let_def
    by (simp add: counter_get_add_fold2 [OF db] f1 split: option.splits)
  have pb: "0 \<le> counter_get b k" using assms by (simp add: counter_get_nonneg)
  show ?thesis
  proof (cases "k \<in> keys a")
    case True
    then obtain n where n: "map_of a k = Some n" by (auto simp: keys_eq_dom)
    have ga: "counter_get a k = n" using n by (simp add: counter_get_def)
    have "0 < counter_get a k" using assms(1) True by (rule counter_get_pos)
    then have "0 < n + counter_get b k" using ga pb by simp
    then have "X = n + counter_get b k" using n by (simp add: X_def)
    then show ?thesis using r True ga by (simp split: option.splits)
  next
    case False
    then have n: "map_of a k = None" by (auto simp: keys_eq_dom)
    have ga: "counter_get a k = 0" using n by (simp add: counter_get_def)
    have x: "X = 0" using n by (simp add: X_def)
    show ?thesis
    proof (cases "map_of b k")
      case None
      then show ?thesis using r x ga by (simp add: counter_get_def)
    next
      case (Some m)
      then have "k \<in> keys b" by (auto simp: keys_eq_dom)
      then have "0 < counter_get b k" using assms(2) by (simp add: counter_get_pos)
      moreover have gb: "counter_get b k = m" using Some by (simp add: counter_get_def)
      ultimately show ?thesis using r x ga False Some by simp
    qed
  qed
qed

lemma good_keys_iff: "good c \<Longrightarrow> k \<in> keys c \<longleftrightarrow> counter_get c k \<noteq> 0"
  using counter_get_pos [of c k] counter_get_absent [of k c] by auto

lemma keys_counter_add:
  assumes "good a" "good b"
  shows "keys (counter_add a b) = keys a \<union> keys b"
proof (rule set_eqI)
  fix k
  have "k \<in> keys (counter_add a b) \<longleftrightarrow> counter_get a k + counter_get b k \<noteq> 0"
    by (simp add: good_keys_iff [OF good_counter_add] counter_get_add [OF assms])
  also have "\<dots> \<longleftrightarrow> counter_get a k \<noteq> 0 \<or> counter_get b k \<noteq> 0"
    using counter_get_nonneg [OF assms(1), of k] counter_get_nonneg [OF assms(2), of k] by linarith
  finally show "k \<in> keys (counter_add a b) \<longleftrightarrow> k \<in> keys a \<union> keys b"
    by (simp add: good_keys_iff [OF assms(1)] good_keys_iff [OF assms(2)])
qed

subsection \<open>Extraction keeps well-formed counters\<close>

lemma good_span_step: "good (fst acc) \<Longrightarrow> good (fst (span_step ops n s acc))"
  by (simp add: span_step_def good_counter_incr)

lemma good_fold_fst:
  assumes "\<And>x r. good (fst r) \<Longrightarrow> good (fst (f x r))"
  shows "good (fst acc) \<Longrightarrow> good (fst (fold f xs acc))"
  by (induction xs arbitrary: acc) (simp_all add: assms)

lemma good_line_step: "good (fst acc) \<Longrightarrow> good (fst (line_step ops n l acc))"
  unfolding line_step_def by (rule good_fold_fst) (rule good_span_step)

lemma good_block_step: "good (fst acc) \<Longrightarrow> good (fst (block_step ops n b acc))"
  unfolding block_step_def by (rule good_fold_fst) (rule good_line_step)

lemma good_page_step: "good (fst acc) \<Longrightarrow> good (fst (page_step ops np acc))"
  unfolding page_step_def by (rule good_fold_fst) (rule good_block_step)

lemma extract_formatting_combos_readable:
  "\<exists>c xs. extract_formatting_combos ops (Readable doc) = Inr (c, xs) \<and> good c"
proof -
  have "good (fst (fold (page_step ops) (enumerate 0 doc) ([], [])))"
    by (rule good_fold_fst) (simp_all add: good_page_step good_Nil)
  then show ?thesis
    by (cases "fold (page_step ops) (enumerate 0 doc) ([], [])")
       (simp add: extract_formatting_combos_def)
qed

lemma extract_image_combos_readable:
  "\<exists>c. extract_image_combos (Readable doc) = Inr c \<and> good c"
proof -
  have "good (fold (\<lambda>page combos. fold image_step (pg_images page) combos) doc [])"
    by (intro good_fold_dict_set good_Nil) (simp add: image_step_def good_counter_incr)
  then show ?thesis by (simp add: extract_image_combos_def)
qed

lemma validate_readable:
  assumes "trained_un_combos st \<noteq> []"
  shows "\<exists>a xs b. extract_formatting_combos ops (Readable doc) = Inr (a, xs)
           \<and> extract_image_combos (Readable doc) = Inr b \<and> good a \<and> good b
           \<and> validate_test_document ops (Some (Readable doc)) st
               = Inr (score (trained_un_combos st) (counter_add a b) xs)"
proof -
  obtain a xs where a: "extract_formatting_combos ops (Readable doc) = Inr (a, xs)" "good a"
    using extract_formatting_combos_readable by blast
  obtain b where b: "extract_image_combos (Readable doc) = Inr b" "good b"
    using extract_image_combos_readable by blast
  show ?thesis using a b assms by (simp add: validate_test_document_def)
qed

lemma fraud_score_bounds:
  assumes "good c"
  shows "0 \<le> fraud_score (score trained c xs) \<and> fraud_score (score trained c xs) \<le> 100"
proof (cases "sum_list (map snd c) = 0")
  case True
  then show ?thesis by (simp add: score_def Let_def)
next
  case False
  have nn: "0 \<le> sum_list (map snd c)"
    by (rule sum_list_nonneg) (use assms in \<open>auto simp: good_def\<close>)
  with False have t: "0 < sum_list (map snd c)" by simp
  show ?thesis
    using percent_bounds [OF unexpected_le_total [OF assms, of "keys trained"] t] False
    by (simp add: score_def Let_def)
qed

subsection \<open>The samples, evaluated\<close>

lemma round_12: "py_round 12 (Suc 0) = 12"
proof -
  have "py_round 12 1 = 12" by code_simp
  then show ?thesis by simp
qed

lemma round_14: "py_round 14 (Suc 0) = 14"
proof -
  have "py_round 14 1 = 14" by code_simp
  then show ?thesis by simp
qed

lemma un_com_arial_12_black: "un_com_of sample_ops arial_12_black = key_12_black"
  by (simp add: un_com_of_def sample_ops_def arial_12_black_def key_12_black_def round_12
      lit_def str_int_def str_nat.simps int_to_hex_def format_02X_def hex_nat.simps hex_digit_def)

lemma un_com_arial_14_red: "un_com_of sample_ops arial_14_red = key_14_red"
  by (simp add: un_com_of_def sample_ops_def arial_14_red_def key_14_red_def round_14
      lit_def str_int_def str_nat.simps int_to_hex_def format_02X_def hex_nat.simps hex_digit_def)

lemma un_com_bare_span: "un_com_of ops bare_span = lit ''0__Unknown_#000000_0_0''"
  by (simp add: un_com_of_def bare_span_def
      lit_def str_int_def str_nat.simps int_to_hex_def format_02X_def hex_nat.simps hex_digit_def)

lemma span_text_arial_12_black: "span_text arial_12_black = lit ''Invoice''"
  by (simp add: span_text_def arial_12_black_def strip_def isspace_def whitespace_def lit_def)

lemma span_text_arial_14_red: "span_text arial_14_red = lit ''9000''"
  by (simp add: span_text_def arial_14_red_def strip_def isspace_def whitespace_def lit_def)

lemma span_text_blank_span: "span_text blank_span = []"
  by (simp add: span_text_def blank_span_def arial_14_red_def strip_def isspace_def whitespace_def lit_def)

lemma span_text_bare_span: "span_text bare_span = lit ''x''"
  by (simp add: span_text_def bare_span_def strip_def isspace_def whitespace_def lit_def)

lemma keys_differ: "key_12_black \<noteq> key_14_red"
  by (simp add: key_12_black_def key_14_red_def lit_def)

lemma un_comb_sample_image: "un_comb_img sample_image = lit ''IMG_1_2_png_3_0_0_8_4''"
  by (simp add: un_comb_img_def sample_image_def lit_def str_int_def str_nat.simps)

lemma dict_set_twice: "dict_set (dict_set c k v) k w = dict_set c k w"
  by (induction c) auto

lemma fold_span_step_replicate:
  assumes "span_text s \<noteq> []"
  shows "fold (span_step ops n) (replicate (Suc m) s) (c, xs)
         = (dict_set c (un_com_of ops s) (counter_get c (un_com_of ops s) + 1 + int m),
            xs @ replicate (Suc m) (detailed_char ops n s))"
proof (induction m arbitrary: c xs)
  case 0
  show ?case using assms by (simp add: span_step_def counter_incr_def)
next
  case (Suc m)
  have "fold (span_step ops n) (replicate (Suc (Suc m)) s) (c, xs)
        = fold (span_step ops n) (replicate (Suc m) s)
            (counter_incr c (un_com_of ops s), xs @ [detailed_char ops n s])"
    using assms by (simp add: span_step_def)
  also have "\<dots> = (dict_set c (un_com_of ops s) (counter_get c (un_com_of ops s) + 1 + int (Suc m)),
                    xs @ replicate (Suc (Suc m)) (detailed_char ops n s))"
    unfolding Suc.IH
    by (simp add: counter_incr_def dict_set_twice counter_get_dict_set replicate_app_Cons_same
        add.assoc)
  finally show ?case .
qed

lemma fold_span_step_replicate_pos:
  assumes "span_text s \<noteq> []" "0 < m"
  shows "fold (span_step ops n) (replicate m s) (c, xs)
         = (dict_set c (un_com_of ops s) (counter_get c (un_com_of ops s) + int m),
            xs @ replicate m (detailed_char ops n s))"
proof -
  obtain m' where m: "m = Suc m'" using assms(2) by (cases m) auto
  show ?thesis
    unfolding m fold_span_step_replicate [OF assms(1)] by (simp add: add.assoc)
qed

lemma tampered_text_combos:
  "map_sum id fst (extract_formatting_combos sample_ops (Readable tampered_doc))
   = Inr [(key_12_black, 137), (key_14_red, 23)]"
proof -
  have n12: "span_text arial_12_black \<noteq> []" by (simp add: span_text_arial_12_black lit_def)
  have n14: "span_text arial_14_red \<noteq> []" by (simp add: span_text_arial_14_red lit_def)
  have s1: "fold (span_step sample_ops 0) (replicate 137 arial_12_black) ([], [])
            = ([(key_12_black, 137)], replicate 137 (detailed_char sample_ops 0 arial_12_black))"
    by (simp add: fold_span_step_replicate_pos [OF n12] un_com_arial_12_black counter_get_def
        del: fold_replicate)
  have s2: "fold (span_step sample_ops 0) (replicate 23 arial_14_red) ([(key_12_black, 137)], ys)
            = ([(key_12_black, 137), (key_14_red, 23)],
               ys @ replicate 23 (detailed_char sample_ops 0 arial_14_red))" for ys
    using keys_differ
    by (simp add: fold_span_step_replicate_pos [OF n14] un_com_arial_14_red counter_get_def
        del: fold_replicate)
  show ?thesis
    by (simp add: extract_formatting_combos_def tampered_doc_def page_of_def enumerate_simps
        page_step_def block_step_def line_step_def s1 s2 del: fold_replicate)
qed

lemma tampered_image_combos: "extract_image_combos (Readable tampered_doc) = Inr []"
  by (simp add: extract_image_combos_def tampered_doc_def page_of_def)

lemma genuine_baseline:
  "fst (train_model sample_ops [Readable genuine_doc] st) = \<lparr>trained_un_combos = [(key_12_black, 1)]\<rparr>"
  by (simp add: train_model_def extract_formatting_combos_def extract_image_combos_def
      genuine_doc_def page_of_def page_step_def block_step_def line_step_def span_step_def
      span_text_arial_12_black lit_def [of "''Invoice''"] counter_incr_def counter_get_def
      un_com_arial_12_black counter_add_def counter_update_def keys_def)

lemma score_23_of_160:
  "py_round (float_mul (int_truediv 23 160) 100) 2 = fl (1437 / 100)"
  by code_simp

lemma spec_23_of_160: "spec_anomaly_percent 23 160 = fl (1438 / 100)"
  by code_simp

lemma fl_1437_1438: "fl (1437 / 100) \<noteq> fl (1438 / 100)"
  by code_simp

lemma tampered_score:
  "map_sum id (\<lambda>r. (unexpected_used r, total_used r, fraud_score r))
     (validate_test_document sample_ops (Some (Readable tampered_doc))
        \<lparr>trained_un_combos = [(key_12_black, 1)]\<rparr>)
   = Inr (23, 160, fl (1437 / 100))"
proof -
  obtain xs where x: "extract_formatting_combos sample_ops (Readable tampered_doc)
                      = Inr ([(key_12_black, 137), (key_14_red, 23)], xs)"
    using tampered_text_combos
    by (cases "extract_formatting_combos sample_ops (Readable tampered_doc)") auto
  have add: "counter_add [(key_12_black, 137), (key_14_red, 23)] []
             = [(key_12_black, 137), (key_14_red, 23)]"
    using keys_differ by (simp add: counter_add_def counter_get_def keys_def)
  have k: "keys [(key_12_black, 137), (key_14_red, 23)] - keys [(key_12_black, 1)] = {key_14_red}"
    using keys_differ by (auto simp: keys_def)
  show ?thesis
    using keys_differ
    by (simp add: validate_test_document_def x tampered_image_combos add score_def Let_def k
        counter_get_def score_23_of_160)
qed

subsection \<open>Extraction as one pass over the spans in reading order\<close>

lemma fold_concat_lists: "fold f (concat xss) acc = fold (fold f) xss acc"
  by (induction xss arbitrary: acc) simp_all

lemma line_step_spans: "line_step ops n l acc = fold (span_step ops n) (line_spans l) acc"
  by (simp add: line_step_def line_spans_def)

lemma block_step_spans: "block_step ops n b acc = fold (span_step ops n) (block_spans b) acc"
proof -
  have "fold (line_step ops n) ls acc = fold (span_step ops n) (concat (map line_spans ls)) acc"
    for ls
    by (induction ls arbitrary: acc) (simp_all add: line_step_spans)
  then show ?thesis by (simp add: block_step_def block_spans_def)
qed

lemma fold_map_Pair:
  "fold (\<lambda>ns. span_step ops (fst ns) (snd ns)) (map (Pair n) ss) acc
   = fold (span_step ops n) ss acc"
  by (induction ss arbitrary: acc) simp_all

lemma page_step_spans:
  "page_step ops np acc = fold (\<lambda>ns. span_step ops (fst ns) (snd ns)) (page_spans np) acc"
proof -
  have "fold (block_step ops n) bs acc = fold (span_step ops n) (concat (map block_spans bs)) acc"
    for n bs
    by (induction bs arbitrary: acc) (simp_all add: block_step_spans)
  then show ?thesis by (simp add: page_step_def page_spans_def fold_map_Pair)
qed

lemma fold_page_step_spans:
  "fold (page_step ops) nps acc
   = fold (\<lambda>ns. span_step ops (fst ns) (snd ns)) (concat (map page_spans nps)) acc"
  by (induction nps arbitrary: acc) (simp_all add: page_step_spans)

lemma extract_formatting_combos_spans:
  "extract_formatting_combos ops (Readable doc)
   = Inr (fold (\<lambda>ns. span_step ops (fst ns) (snd ns)) (doc_spans doc) ([], []))"
  by (simp add: extract_formatting_combos_def fold_page_step_spans doc_spans_def)

lemma fold_span_step_chars:
  "snd (fold (\<lambda>ns. span_step ops (fst ns) (snd ns)) xs acc)
   = snd acc @ map (\<lambda>ns. detailed_char ops (fst ns) (snd ns)) (filter has_text xs)"
  by (induction xs arbitrary: acc) (simp_all add: span_step_def has_text_def)

lemma fold_span_step_count:
  "counter_get (fst (fold (\<lambda>ns. span_step ops (fst ns) (snd ns)) xs acc)) k
   = counter_get (fst acc) k
     + int (length (filter (\<lambda>ns. has_text ns \<and> un_com_of ops (snd ns) = k) xs))"
  by (induction xs arbitrary: acc) (auto simp: span_step_def has_text_def counter_get_incr)

lemma extract_image_combos_images:
  "extract_image_combos (Readable doc) = Inr (fold image_step (doc_images doc) [])"
proof -
  have "fold (\<lambda>page combos. fold image_step (pg_images page) combos) ps acc
        = fold image_step (concat (map pg_images ps)) acc" for ps acc
    by (induction ps arbitrary: acc) simp_all
  then show ?thesis by (simp add: extract_image_combos_def doc_images_def)
qed

lemma fold_image_step_count:
  "counter_get (fold image_step ims acc) k
   = counter_get acc k + int (length (filter (\<lambda>im. un_comb_img im = k) ims))"
  by (induction ims arbitrary: acc) (auto simp: image_step_def counter_get_incr)

subsection \<open>Whitespace-only spans\<close>

lemma fold_filter_skip:
  assumes "\<And>x acc. \<not> P x \<Longrightarrow> f x acc = acc"
  shows "fold f (filter P xs) acc = fold f xs acc"
  by (induction xs arbitrary: acc) (simp_all add: assms)

lemma line_spans_without_blanks:
  "line_spans (line_without_blanks l) = filter (\<lambda>s. span_text s \<noteq> []) (line_spans l)"
  by (cases "ln_spans l") (simp_all add: line_spans_def line_without_blanks_def)

lemma block_spans_without_blanks:
  "block_spans (block_without_blanks b) = filter (\<lambda>s. span_text s \<noteq> []) (block_spans b)"
proof -
  have "concat (map line_spans (map line_without_blanks ls))
        = filter (\<lambda>s. span_text s \<noteq> []) (concat (map line_spans ls))" for ls :: "'a text_line list"
    by (induction ls) (simp_all add: line_spans_without_blanks)
  then show ?thesis
    by (cases "bl_lines b") (simp_all add: block_spans_def block_without_blanks_def)
qed

lemma page_spans_without_blanks:
  "page_spans (n, p\<lparr>pg_blocks := map block_without_blanks (pg_blocks p)\<rparr>)
   = filter has_text (page_spans (n, p))"
proof -
  have "concat (map block_spans (map block_without_blanks bs))
        = filter (\<lambda>s. span_text s \<noteq> []) (concat (map block_spans bs))" for bs :: "'a text_block list"
    by (induction bs) (simp_all add: block_spans_without_blanks)
  then show ?thesis
    by (simp add: page_spans_def filter_map comp_def has_text_def)
qed

lemma enumerate_spans_without_blanks:
  "concat (map page_spans (enumerate n (without_blanks doc)))
   = filter has_text (concat (map page_spans (enumerate n doc)))"
  by (induction doc arbitrary: n) (simp_all add: without_blanks_def page_spans_without_blanks)

lemma doc_spans_without_blanks: "doc_spans (without_blanks doc) = filter has_text (doc_spans doc)"
  by (simp add: doc_spans_def enumerate_spans_without_blanks)

lemma span_step_blank: "span_text s = [] \<Longrightarrow> span_step ops n s acc = acc"
  by (simp add: span_step_def)

section \<open>The claims\<close>

text \<open>
  C2. Whatever the candidate document (absent, unreadable or readable), validation
  against an empty baseline is refused with \<open>BaselineNotReady\<close>: no score is computed.
\<close>

theorem untrained_baseline_rejected:
  assumes "trained_un_combos st = []"
  shows "validate_test_document ops test_file st = Inl BaselineNotReady"
  using assms by (simp add: validate_test_document_def)

theorem untrained_baseline_rejected_witness:
  "trained_un_combos \<lparr>trained_un_combos = []\<rparr> = []
   \<and> validate_test_document sample_ops (Some (Readable tampered_doc)) \<lparr>trained_un_combos = []\<rparr>
       = Inl BaselineNotReady"
  using untrained_baseline_rejected [of "\<lparr>trained_un_combos = []\<rparr>" sample_ops
      "Some (Readable tampered_doc)"]
  by simp

text \<open>
  C8. For every readable candidate and every non-empty baseline, validation returns a
  result whose anomaly percentage lies between 0 and 100.
\<close>

theorem fraud_score_between_0_and_100:
  assumes "trained_un_combos st \<noteq> []"
  shows "\<exists>r. validate_test_document ops (Some (Readable doc)) st = Inr r
             \<and> 0 \<le> fraud_score r \<and> fraud_score r \<le> 100"
proof -
  obtain a xs b where v: "good a" "good b"
    "validate_test_document ops (Some (Readable doc)) st
       = Inr (score (trained_un_combos st) (counter_add a b) xs)"
    using validate_readable [OF assms, of ops doc] by blast
  show ?thesis
    using v(3) fraud_score_bounds [OF good_counter_add, of "trained_un_combos st" a b xs]
    by simp
qed

theorem fraud_score_between_0_and_100_witness:
  "trained_un_combos \<lparr>trained_un_combos = [(key_12_black, 1)]\<rparr> \<noteq> []
   \<and> (\<exists>r. validate_test_document sample_ops (Some (Readable tampered_doc))
              \<lparr>trained_un_combos = [(key_12_black, 1)]\<rparr> = Inr r
            \<and> 0 \<le> fraud_score r \<and> fraud_score r \<le> 100)"
  using fraud_score_between_0_and_100 [of "\<lparr>trained_un_combos = [(key_12_black, 1)]\<rparr>"
      sample_ops tampered_doc]
  by simp

text \<open>
  C1, as stated: the score is \<open>round(100 * unexpected / total, 2)\<close>. The handler
  divides first and multiplies by 100 afterwards, each step rounded to binary64. With
  23 unexpected occurrences among 160 the quotient times 100 falls just below 14.375
  and the score is 14.37, where the stated formula gives 14.38.
\<close>

theorem spec_score_formula_counterexample:
  "map_sum id (\<lambda>r. (unexpected_used r, total_used r, fraud_score r))
     (validate_test_document sample_ops (Some (Readable tampered_doc))
        (fst (train_model sample_ops [Readable genuine_doc] \<lparr>trained_un_combos = []\<rparr>)))
   = Inr (23, 160, fl (1437 / 100))
   \<and> spec_anomaly_percent 23 160 = fl (1438 / 100)
   \<and> fl (1437 / 100) \<noteq> fl (1438 / 100)"
  by (simp only: genuine_baseline tampered_score spec_23_of_160 fl_1437_1438
      not_False_eq_True simp_thms)

text \<open>
  C1, amended. For every readable candidate and every non-empty baseline the result
  is returned and, with the candidate Counter the sum of the text and image Counters:
  the total is the sum of all candidate counts, the unexpected occurrences are the sum
  of the candidate counts of exactly the keys absent from the baseline (weighted by
  occurrence), and the score is 0 when the total is 0 and otherwise
  \<open>round((unexpected / total) * 100, 2)\<close> in binary64 arithmetic, in this order.
\<close>

theorem fraud_score_formula:
  assumes "trained_un_combos st \<noteq> []"
  shows "\<exists>text_combos chars image_combos r.
           extract_formatting_combos ops (Readable doc) = Inr (text_combos, chars)
           \<and> extract_image_combos (Readable doc) = Inr image_combos
           \<and> validate_test_document ops (Some (Readable doc)) st = Inr r
           \<and> (\<forall>k. counter_get (counter_add text_combos image_combos) k
                    = counter_get text_combos k + counter_get image_combos k)
           \<and> total_used r = sum_list (map snd (counter_add text_combos image_combos))
           \<and> unexpected_used r
               = sum_list (map snd (filter (\<lambda>kv. fst kv \<notin> keys (trained_un_combos st))
                                      (counter_add text_combos image_combos)))
           \<and> fraud_score r
               = (if total_used r = 0 then 0
                  else py_round (float_mul (int_truediv (unexpected_used r) (total_used r)) 100) 2)"
proof -
  obtain a xs b where v: "extract_formatting_combos ops (Readable doc) = Inr (a, xs)"
    "extract_image_combos (Readable doc) = Inr b" "good a" "good b"
    "validate_test_document ops (Some (Readable doc)) st
       = Inr (score (trained_un_combos st) (counter_add a b) xs)"
    using validate_readable [OF assms, of ops doc] by blast
  let ?c = "counter_add a b"
  let ?r = "score (trained_un_combos st) ?c xs"
  have d: "distinct (map fst ?c)" using good_counter_add [of a b] by (simp add: good_def)
  have t: "total_used ?r = sum_list (map snd ?c)" by (simp add: score_def Let_def)
  have u: "unexpected_used ?r
           = sum_list (map snd (filter (\<lambda>kv. fst kv \<notin> keys (trained_un_combos st)) ?c))"
    by (simp add: score_def Let_def sum_list_filter_values [OF d])
  have f: "fraud_score ?r
           = (if total_used ?r = 0 then 0
              else py_round (float_mul (int_truediv (unexpected_used ?r) (total_used ?r)) 100) 2)"
    by (simp add: score_def Let_def)
  have g: "\<forall>k. counter_get ?c k = counter_get a k + counter_get b k"
    using counter_get_add [OF v(3,4)] by simp
  show ?thesis using v(1,2,5) g t u f by blast
qed

theorem fraud_score_formula_witness:
  "trained_un_combos \<lparr>trained_un_combos = [(key_12_black, 1)]\<rparr> \<noteq> []
   \<and> (\<exists>r. validate_test_document sample_ops (Some (Readable tampered_doc))
              \<lparr>trained_un_combos = [(key_12_black, 1)]\<rparr> = Inr r
            \<and> fraud_score r
                = (if total_used r = 0 then 0
                   else py_round (float_mul (int_truediv (unexpected_used r) (total_used r)) 100) 2))"
proof -
  have h: "trained_un_combos \<lparr>trained_un_combos = [(key_12_black, 1)]\<rparr> \<noteq> []" by simp
  show ?thesis
    using h fraud_score_formula [OF h, of sample_ops tampered_doc] by blast
qed

lemma reset_session_state:
  "(st :: session_state)\<lparr>trained_un_combos := []\<rparr> = \<lparr>trained_un_combos = []\<rparr>"
  by (cases st) simp

text \<open>
  C3, as stated: training always replaces the prior baseline. The handler refuses an
  empty upload with a warning and leaves the session state as it was, so the baseline
  after training on no documents is the prior one, not the empty mapping.
\<close>

theorem training_always_replaces_counterexample:
  "train_model sample_ops [] \<lparr>trained_un_combos = [(key_12_black, 1)]\<rparr>
   = (\<lparr>trained_un_combos = [(key_12_black, 1)]\<rparr>, TrainWarning)
   \<and> fst (train_model sample_ops [] \<lparr>trained_un_combos = [(key_12_black, 1)]\<rparr>)
     \<noteq> fst (train_model sample_ops [] \<lparr>trained_un_combos = []\<rparr>)"
  by (simp add: train_model_def)

text \<open>
  C3, amended. Training on a non-empty list starts from the empty mapping, so its
  outcome does not depend on the prior baseline; an empty list is refused and leaves
  the baseline unchanged. For every list, training twice in succession leaves the same
  baseline as training once.
\<close>

theorem training_replaces_baseline:
  "fst (train_model ops files (fst (train_model ops files st))) = fst (train_model ops files st)
   \<and> (files \<noteq> [] \<longrightarrow>
        train_model ops files st = train_loop ops files \<lparr>trained_un_combos = []\<rparr>)
   \<and> (files = [] \<longrightarrow> train_model ops files st = (st, TrainWarning))"
  by (simp add: train_model_def reset_session_state)

theorem training_replaces_baseline_witness:
  "fst (train_model sample_ops [Readable genuine_doc]
          (fst (train_model sample_ops [Readable genuine_doc]
                  \<lparr>trained_un_combos = [(key_14_red, 5)]\<rparr>)))
   = fst (train_model sample_ops [Readable genuine_doc] \<lparr>trained_un_combos = [(key_14_red, 5)]\<rparr>)
   \<and> train_model sample_ops [Readable genuine_doc] \<lparr>trained_un_combos = [(key_14_red, 5)]\<rparr>
     = train_loop sample_ops [Readable genuine_doc] \<lparr>trained_un_combos = []\<rparr>
   \<and> fst (train_model sample_ops [Readable genuine_doc] \<lparr>trained_un_combos = [(key_14_red, 5)]\<rparr>)
     = \<lparr>trained_un_combos = [(key_12_black, 1)]\<rparr>"
  using training_replaces_baseline [of sample_ops "[Readable genuine_doc]"
      "\<lparr>trained_un_combos = [(key_14_red, 5)]\<rparr>"]
    genuine_baseline [of "\<lparr>trained_un_combos = [(key_14_red, 5)]\<rparr>"]
  by simp

text \<open>
  C4, as stated: an unreadable document leaves no partial baseline. The handler stores
  each document's counts in the session state as it goes; when the second document
  cannot be opened, the exception leaves the counts of the first one there.
\<close>

theorem training_atomic_counterexample:
  "train_model sample_ops [Readable genuine_doc, Unreadable] \<lparr>trained_un_combos = []\<rparr>
   = (\<lparr>trained_un_combos = [(key_12_black, 1)]\<rparr>, TrainRaised DocumentUnreadable)
   \<and> fst (train_model sample_ops [Readable genuine_doc] \<lparr>trained_un_combos = []\<rparr>)
     = \<lparr>trained_un_combos = [(key_12_black, 1)]\<rparr>"
  by (simp add: train_model_def extract_formatting_combos_def extract_image_combos_def
      genuine_doc_def page_of_def page_step_def block_step_def line_step_def span_step_def
      span_text_arial_12_black lit_def [of "''Invoice''"] counter_incr_def counter_get_def
      un_com_arial_12_black counter_add_def counter_update_def keys_def)

lemma train_loop_readable_prefix:
  assumes "Unreadable \<notin> set pre"
  shows "snd (train_loop ops pre st) = TrainSuccess
         \<and> train_loop ops (pre @ rest) st = train_loop ops rest (fst (train_loop ops pre st))"
  using assms
proof (induction pre arbitrary: st)
  case Nil
  then show ?case by simp
next
  case (Cons x pre)
  then obtain doc where f: "x = Readable doc" by (cases x) auto
  obtain a xs where a: "extract_formatting_combos ops (Readable doc) = Inr (a, xs)"
    using extract_formatting_combos_readable by blast
  obtain b where b: "extract_image_combos (Readable doc) = Inr b"
    using extract_image_combos_readable by blast
  from Cons show ?case by (simp add: f a b)
qed

lemma counter_get_Cons:
  "counter_get ((e, c) # other) k = (if k = e then c else counter_get other k)"
  by (simp add: counter_get_def)

lemma counter_get_update_fold_add:
  assumes "distinct (map fst other)"
  shows "counter_get (fold (\<lambda>(elem, count) s. dict_set s elem (count + counter_get s elem))
                        other s) k
         = counter_get s k + counter_get other k"
  using assms
proof (induction other arbitrary: s)
  case Nil
  show ?case by (simp add: counter_get_Nil)
next
  case (Cons p other)
  obtain e c where p: "p = (e, c)" by (cases p)
  have d: "distinct (map fst other)" and ne: "e \<notin> keys other"
    using Cons.prems by (simp_all add: p keys_def)
  have z: "counter_get other e = 0" using ne by (rule counter_get_absent)
  show ?case
    using Cons.IH [OF d] z by (simp add: p counter_get_Cons counter_get_dict_set)
qed

lemma counter_get_update_fold_set:
  assumes "distinct (map fst other)"
  shows "counter_get (fold (\<lambda>(elem, count) s. dict_set s elem count) other s) k
         = (if k \<in> keys other then counter_get other k else counter_get s k)"
  using assms
proof (induction other arbitrary: s)
  case Nil
  show ?case by (simp add: keys_def)
next
  case (Cons p other)
  obtain e c where p: "p = (e, c)" by (cases p)
  have d: "distinct (map fst other)" and ne: "e \<notin> keys other"
    using Cons.prems by (simp_all add: p keys_def)
  show ?case
    using Cons.IH [OF d] ne by (auto simp: p counter_get_Cons counter_get_dict_set keys_def)
qed

lemma counter_get_update:
  assumes "distinct (map fst other)"
  shows "counter_get (counter_update self other) k = counter_get self k + counter_get other k"
proof (cases "self = []")
  case True
  show ?thesis
    using counter_get_absent [of k other]
    by (simp add: counter_update_def True counter_get_update_fold_set [OF assms] counter_get_Nil)
next
  case False
  then show ?thesis
    by (simp add: counter_update_def counter_get_update_fold_add [OF assms])
qed

lemma key_occurrences_extracted:
  assumes "extract_formatting_combos ops (Readable doc) = Inr (a, xs)"
    and "extract_image_combos (Readable doc) = Inr b"
  shows "key_occurrences ops (Readable doc) k = counter_get a k + counter_get b k"
proof -
  have a: "a = fst (fold (\<lambda>ns. span_step ops (fst ns) (snd ns)) (doc_spans doc) ([], []))"
    using assms(1) by (simp add: extract_formatting_combos_spans)
  have b: "b = fold image_step (doc_images doc) []"
    using assms(2) by (simp add: extract_image_combos_images)
  show ?thesis
    unfolding a b
    by (simp add: key_occurrences_def fold_span_step_count fold_image_step_count counter_get_Nil)
qed

lemma train_loop_counts:
  assumes "Unreadable \<notin> set pre"
  shows "counter_get (trained_un_combos (fst (train_loop ops pre st))) k
         = counter_get (trained_un_combos st) k
           + sum_list (map (\<lambda>f. key_occurrences ops f k) pre)"
  using assms
proof (induction pre arbitrary: st)
  case Nil
  show ?case by simp
next
  case (Cons x pre)
  then obtain doc where f: "x = Readable doc" by (cases x) auto
  obtain a xs where a: "extract_formatting_combos ops (Readable doc) = Inr (a, xs)"
    and ga: "good a"
    using extract_formatting_combos_readable by blast
  obtain b where b: "extract_image_combos (Readable doc) = Inr b" and gb: "good b"
    using extract_image_combos_readable by blast
  have d: "distinct (map fst (counter_add a b))"
    using good_counter_add [of a b] by (simp add: good_def)
  have occ: "key_occurrences ops (Readable doc) k = counter_get (counter_add a b) k"
    by (simp add: key_occurrences_extracted [OF a b] counter_get_add [OF ga gb])
  have rest: "Unreadable \<notin> set pre" using Cons.prems by simp
  show ?case
    using Cons.IH [OF rest, of "st\<lparr>trained_un_combos :=
                                     counter_update (trained_un_combos st) (counter_add a b)\<rparr>"]
    by (simp add: f a b occ counter_get_update [OF d])
qed

text \<open>
  C4, amended. When a document of the list cannot be opened, the training call aborts
  at the first such document with \<open>DocumentUnreadable\<close>; the prior baseline has been
  discarded, and the baseline left in the session is the aggregate of the documents
  before it, which were all processed: the count of every key is the sum, over those
  documents, of the number of spans with text and of images that carry the key.
\<close>

theorem training_aborts_at_first_unreadable:
  assumes "Unreadable \<notin> set pre"
  shows "train_model ops (pre @ Unreadable # post) st
         = (fst (train_loop ops pre \<lparr>trained_un_combos = []\<rparr>), TrainRaised DocumentUnreadable)
         \<and> snd (train_loop ops pre \<lparr>trained_un_combos = []\<rparr>) = TrainSuccess
         \<and> (\<forall>k. counter_get
                   (trained_un_combos (fst (train_model ops (pre @ Unreadable # post) st))) k
                 = sum_list (map (\<lambda>f. key_occurrences ops f k) pre))"
proof -
  have run: "train_model ops (pre @ Unreadable # post) st
             = (fst (train_loop ops pre \<lparr>trained_un_combos = []\<rparr>),
                TrainRaised DocumentUnreadable)
             \<and> snd (train_loop ops pre \<lparr>trained_un_combos = []\<rparr>) = TrainSuccess"
    using train_loop_readable_prefix [OF assms, of ops "\<lparr>trained_un_combos = []\<rparr>"
        "Unreadable # post"]
    by (simp add: train_model_def reset_session_state extract_formatting_combos_def)
  have counts: "counter_get (trained_un_combos (fst (train_loop ops pre \<lparr>trained_un_combos = []\<rparr>))) k
                = sum_list (map (\<lambda>f. key_occurrences ops f k) pre)" for k
    by (simp add: train_loop_counts [OF assms] counter_get_Nil)
  show ?thesis using run counts by simp
qed

lemma key_occurrences_genuine:
  "key_occurrences sample_ops (Readable genuine_doc) key_12_black = 1
   \<and> key_occurrences sample_ops (Readable genuine_doc) key_14_red = 0"
  using keys_differ
  by (simp add: key_occurrences_def doc_spans_def doc_images_def page_spans_def block_spans_def
      line_spans_def genuine_doc_def page_of_def enumerate_simps has_text_def
      span_text_arial_12_black un_com_arial_12_black lit_def [of "''Invoice''"])

lemma key_occurrences_tampered:
  "key_occurrences sample_ops (Readable tampered_doc) key_12_black = 137
   \<and> key_occurrences sample_ops (Readable tampered_doc) key_14_red = 23"
proof -
  obtain xs where x: "extract_formatting_combos sample_ops (Readable tampered_doc)
                      = Inr ([(key_12_black, 137), (key_14_red, 23)], xs)"
    using tampered_text_combos
    by (cases "extract_formatting_combos sample_ops (Readable tampered_doc)") auto
  show ?thesis
    using keys_differ
    by (simp add: key_occurrences_extracted [OF x tampered_image_combos] counter_get_Cons
        counter_get_Nil)
qed

theorem training_aborts_at_first_unreadable_witness:
  "Unreadable \<notin> set [Readable genuine_doc, Readable tampered_doc]
   \<and> snd (train_model sample_ops
            ([Readable genuine_doc, Readable tampered_doc] @ Unreadable # [Readable genuine_doc])
            \<lparr>trained_un_combos = [(key_14_red, 5)]\<rparr>)
     = TrainRaised DocumentUnreadable
   \<and> counter_get (trained_un_combos (fst (train_model sample_ops
        ([Readable genuine_doc, Readable tampered_doc] @ Unreadable # [Readable genuine_doc])
        \<lparr>trained_un_combos = [(key_14_red, 5)]\<rparr>))) key_12_black = 138
   \<and> counter_get (trained_un_combos (fst (train_model sample_ops
        ([Readable genuine_doc, Readable tampered_doc] @ Unreadable # [Readable genuine_doc])
        \<lparr>trained_un_combos = [(key_14_red, 5)]\<rparr>))) key_14_red = 23"
proof -
  have h: "Unreadable \<notin> set [Readable genuine_doc, Readable tampered_doc]" by simp
  have s12: "sum_list (map (\<lambda>f. key_occurrences sample_ops f key_12_black)
                         [Readable genuine_doc, Readable tampered_doc]) = 138"
    by (simp add: key_occurrences_genuine key_occurrences_tampered)
  have s14: "sum_list (map (\<lambda>f. key_occurrences sample_ops f key_14_red)
                         [Readable genuine_doc, Readable tampered_doc]) = 23"
    by (simp add: key_occurrences_genuine key_occurrences_tampered)
  define T where "T = train_model sample_ops
    ([Readable genuine_doc, Readable tampered_doc] @ Unreadable # [Readable genuine_doc])
    \<lparr>trained_un_combos = [(key_14_red, 5)]\<rparr>"
  have t: "T = (fst (train_loop sample_ops [Readable genuine_doc, Readable tampered_doc]
                       \<lparr>trained_un_combos = []\<rparr>), TrainRaised DocumentUnreadable)
           \<and> snd (train_loop sample_ops [Readable genuine_doc, Readable tampered_doc]
                    \<lparr>trained_un_combos = []\<rparr>) = TrainSuccess
           \<and> (\<forall>k. counter_get (trained_un_combos (fst T)) k
                   = sum_list (map (\<lambda>f. key_occurrences sample_ops f k)
                                 [Readable genuine_doc, Readable tampered_doc]))"
    unfolding T_def by (rule training_aborts_at_first_unreadable [OF h])
  have r: "snd T = TrainRaised DocumentUnreadable"
    using t by (metis snd_conv)
  have tc: "\<forall>k. counter_get (trained_un_combos (fst T)) k
                = sum_list (map (\<lambda>f. key_occurrences sample_ops f k)
                              [Readable genuine_doc, Readable tampered_doc])"
    using t by blast
  have c12: "counter_get (trained_un_combos (fst T)) key_12_black = 138"
    using tc [rule_format, of key_12_black] by (simp only: s12)
  have c14: "counter_get (trained_un_combos (fst T)) key_14_red = 23"
    using tc [rule_format, of key_14_red] by (simp only: s14)
  show ?thesis
    using h r c12 c14 unfolding T_def by blast
qed

text \<open>
  C5, as stated: an absent style-flags field reads as 0. The source reads it with
  \<open>span.get("flags", "")\<close>: a span that has only its text gets the key
  \<open>0__Unknown_#000000_0_0\<close>, with nothing between the first two delimiters.
\<close>

theorem absent_flags_zero_counterexample:
  "un_com_of sample_ops bare_span = lit ''0__Unknown_#000000_0_0''
   \<and> spec_text_key sample_ops bare_span = lit ''0_0_Unknown_#000000_0_0''
   \<and> un_com_of sample_ops bare_span \<noteq> spec_text_key sample_ops bare_span"
  by (simp add: spec_text_key_def un_com_of_def bare_span_def
      lit_def str_int_def str_nat.simps int_to_hex_def format_02X_def hex_nat.simps hex_digit_def)

text \<open>
  C5, amended. Extraction of a readable document never fails, and each absent field of
  a span has its default in the key: the font name is \<open>Unknown\<close>, the colour is 0,
  the size, the ascender and the descender print as \<open>0\<close>, and the style flags print
  as the empty string.
\<close>

theorem absent_fields_have_defaults:
  "(\<exists>r. extract_formatting_combos ops (Readable doc) = Inr r)
   \<and> (sp_font s = None \<longrightarrow>
        un_com_of ops s = un_com_of ops (s\<lparr>sp_font := Some (lit ''Unknown'')\<rparr>))
   \<and> (sp_color s = None \<longrightarrow> un_com_of ops s = un_com_of ops (s\<lparr>sp_color := Some 0\<rparr>))
   \<and> (sp_size s = None \<longrightarrow>
        (\<exists>B. un_com_of ops s = lit ''0'' @ B
             \<and> (\<forall>x. un_com_of ops (s\<lparr>sp_size := Some x\<rparr>)
                      = float_str ops (float_round1 ops x) @ B)))
   \<and> (sp_flags s = None \<longrightarrow>
        (\<exists>A B. un_com_of ops s = A @ B
               \<and> (\<forall>f. un_com_of ops (s\<lparr>sp_flags := Some f\<rparr>) = A @ str_int f @ B)))
   \<and> (sp_ascender s = None \<longrightarrow>
        (\<exists>A B. un_com_of ops s = A @ lit ''0'' @ B
               \<and> (\<forall>x. un_com_of ops (s\<lparr>sp_ascender := Some x\<rparr>) = A @ float_str ops x @ B)))
   \<and> (sp_descender s = None \<longrightarrow>
        (\<exists>A. un_com_of ops s = A @ lit ''0''
             \<and> (\<forall>x. un_com_of ops (s\<lparr>sp_descender := Some x\<rparr>) = A @ float_str ops x)))"
proof -
  have zero: "str_int 0 = lit ''0''" by (simp add: str_int_def str_nat.simps lit_def)
  have total: "\<exists>r. extract_formatting_combos ops (Readable doc) = Inr r"
    using extract_formatting_combos_readable [of ops doc] by blast
  have font: "sp_font s = None \<longrightarrow>
      un_com_of ops s = un_com_of ops (s\<lparr>sp_font := Some (lit ''Unknown'')\<rparr>)"
    by (simp add: un_com_of_def)
  have color: "sp_color s = None \<longrightarrow> un_com_of ops s = un_com_of ops (s\<lparr>sp_color := Some 0\<rparr>)"
    by (simp add: un_com_of_def)
  have size: "sp_size s = None \<longrightarrow>
      (\<exists>B. un_com_of ops s = lit ''0'' @ B
           \<and> (\<forall>x. un_com_of ops (s\<lparr>sp_size := Some x\<rparr>)
                    = float_str ops (float_round1 ops x) @ B))"
    by (simp add: un_com_of_def zero)
  have flags: "sp_flags s = None \<longrightarrow>
      (\<exists>A B. un_com_of ops s = A @ B
             \<and> (\<forall>f. un_com_of ops (s\<lparr>sp_flags := Some f\<rparr>) = A @ str_int f @ B))"
  proof
    assume n: "sp_flags s = None"
    let ?A = "(case sp_size s of None \<Rightarrow> str_int 0
               | Some x \<Rightarrow> float_str ops (float_round1 ops x)) @ lit ''_''"
    let ?B = "lit ''_'' @ (case sp_font s of None \<Rightarrow> lit ''Unknown'' | Some f \<Rightarrow> f) @ lit ''_''
              @ int_to_hex (case sp_color s of None \<Rightarrow> 0 | Some c \<Rightarrow> c) @ lit ''_''
              @ (case sp_ascender s of None \<Rightarrow> str_int 0 | Some a \<Rightarrow> float_str ops a) @ lit ''_''
              @ (case sp_descender s of None \<Rightarrow> str_int 0 | Some d \<Rightarrow> float_str ops d)"
    have "un_com_of ops s = ?A @ ?B
          \<and> (\<forall>f. un_com_of ops (s\<lparr>sp_flags := Some f\<rparr>) = ?A @ str_int f @ ?B)"
      using n by (simp add: un_com_of_def)
    then show "\<exists>A B. un_com_of ops s = A @ B
                 \<and> (\<forall>f. un_com_of ops (s\<lparr>sp_flags := Some f\<rparr>) = A @ str_int f @ B)"
      by blast
  qed
  have asc: "sp_ascender s = None \<longrightarrow>
      (\<exists>A B. un_com_of ops s = A @ lit ''0'' @ B
             \<and> (\<forall>x. un_com_of ops (s\<lparr>sp_ascender := Some x\<rparr>) = A @ float_str ops x @ B))"
  proof
    assume n: "sp_ascender s = None"
    let ?A = "(case sp_size s of None \<Rightarrow> str_int 0
               | Some x \<Rightarrow> float_str ops (float_round1 ops x)) @ lit ''_''
              @ (case sp_flags s of None \<Rightarrow> [] | Some f \<Rightarrow> str_int f) @ lit ''_''
              @ (case sp_font s of None \<Rightarrow> lit ''Unknown'' | Some f \<Rightarrow> f) @ lit ''_''
              @ int_to_hex (case sp_color s of None \<Rightarrow> 0 | Some c \<Rightarrow> c) @ lit ''_''"
    let ?B = "lit ''_'' @ (case sp_descender s of None \<Rightarrow> str_int 0 | Some d \<Rightarrow> float_str ops d)"
    have "un_com_of ops s = ?A @ lit ''0'' @ ?B
          \<and> (\<forall>x. un_com_of ops (s\<lparr>sp_ascender := Some x\<rparr>) = ?A @ float_str ops x @ ?B)"
      using n by (simp add: un_com_of_def zero)
    then show "\<exists>A B. un_com_of ops s = A @ lit ''0'' @ B
                 \<and> (\<forall>x. un_com_of ops (s\<lparr>sp_ascender := Some x\<rparr>) = A @ float_str ops x @ B)"
      by blast
  qed
  have desc: "sp_descender s = None \<longrightarrow>
      (\<exists>A. un_com_of ops s = A @ lit ''0''
           \<and> (\<forall>x. un_com_of ops (s\<lparr>sp_descender := Some x\<rparr>) = A @ float_str ops x))"
  proof
    assume n: "sp_descender s = None"
    let ?A = "(case sp_size s of None \<Rightarrow> str_int 0
               | Some x \<Rightarrow> float_str ops (float_round1 ops x)) @ lit ''_''
              @ (case sp_flags s of None \<Rightarrow> [] | Some f \<Rightarrow> str_int f) @ lit ''_''
              @ (case sp_font s of None \<Rightarrow> lit ''Unknown'' | Some f \<Rightarrow> f) @ lit ''_''
              @ int_to_hex (case sp_color s of None \<Rightarrow> 0 | Some c \<Rightarrow> c) @ lit ''_''
              @ (case sp_ascender s of None \<Rightarrow> str_int 0 | Some a \<Rightarrow> float_str ops a) @ lit ''_''"
    have "un_com_of ops s = ?A @ lit ''0''
          \<and> (\<forall>x. un_com_of ops (s\<lparr>sp_descender := Some x\<rparr>) = ?A @ float_str ops x)"
      using n by (simp add: un_com_of_def zero)
    then show "\<exists>A. un_com_of ops s = A @ lit ''0''
                 \<and> (\<forall>x. un_com_of ops (s\<lparr>sp_descender := Some x\<rparr>) = A @ float_str ops x)"
      by blast
  qed
  show ?thesis using total font color size flags asc desc by blast
qed

theorem absent_fields_have_defaults_witness:
  "sp_font bare_span = None
   \<and> un_com_of sample_ops bare_span
     = un_com_of sample_ops (bare_span\<lparr>sp_font := Some (lit ''Unknown'')\<rparr>)
   \<and> sp_color bare_span = None
   \<and> un_com_of sample_ops bare_span = un_com_of sample_ops (bare_span\<lparr>sp_color := Some 0\<rparr>)
   \<and> (\<exists>r. extract_formatting_combos sample_ops (Readable [page_of [bare_span] []]) = Inr r)"
proof -
  have h: "sp_font bare_span = None" "sp_color bare_span = None"
    by (simp_all add: bare_span_def)
  show ?thesis
    using h absent_fields_have_defaults [of sample_ops "[page_of [bare_span] []]" bare_span]
    by blast
qed

text \<open>
  C6. A span whose text is empty after stripping leaves the counts and the span list
  as they are; a document and the same document with every such span deleted have the
  same extraction; every recorded span has text, and the count of a key is the number
  of spans with text that carry it.
\<close>

theorem blank_spans_contribute_nothing:
  "(span_text s = [] \<longrightarrow> span_step ops n s acc = acc)
   \<and> extract_formatting_combos ops (Readable (without_blanks doc))
     = extract_formatting_combos ops (Readable doc)
   \<and> (\<exists>combos chars.
        extract_formatting_combos ops (Readable doc) = Inr (combos, chars)
        \<and> chars = map (\<lambda>ns. detailed_char ops (fst ns) (snd ns)) (filter has_text (doc_spans doc))
        \<and> (\<forall>c \<in> set chars. cs_text c \<noteq> [])
        \<and> (\<forall>k. counter_get combos k
                 = int (length (filter (\<lambda>ns. has_text ns \<and> un_com_of ops (snd ns) = k)
                                  (doc_spans doc)))))"
proof -
  let ?f = "\<lambda>ns. span_step ops (fst ns) (snd ns)"
  let ?r = "fold ?f (doc_spans doc) ([], [])"
  have skip: "fold ?f (filter has_text (doc_spans doc)) ([], []) = ?r"
    by (rule fold_filter_skip) (simp add: has_text_def span_step_def)
  have same: "extract_formatting_combos ops (Readable (without_blanks doc))
              = extract_formatting_combos ops (Readable doc)"
    by (simp only: extract_formatting_combos_spans doc_spans_without_blanks skip)
  have chars: "snd ?r = map (\<lambda>ns. detailed_char ops (fst ns) (snd ns))
                           (filter has_text (doc_spans doc))"
    by (simp add: fold_span_step_chars)
  have nonempty: "\<forall>c \<in> set (snd ?r). cs_text c \<noteq> []"
    unfolding chars by (auto simp: detailed_char_def has_text_def)
  have count: "\<forall>k. counter_get (fst ?r) k
                  = int (length (filter (\<lambda>ns. has_text ns \<and> un_com_of ops (snd ns) = k)
                                   (doc_spans doc)))"
    by (simp add: fold_span_step_count counter_get_Nil)
  have ex: "extract_formatting_combos ops (Readable doc) = Inr (fst ?r, snd ?r)"
    by (simp add: extract_formatting_combos_spans)
  show ?thesis
    using same ex chars nonempty count by (simp add: span_step_blank)
qed

theorem blank_spans_contribute_nothing_witness:
  "span_text blank_span = []
   \<and> span_step sample_ops 0 blank_span ([(key_12_black, 1)], []) = ([(key_12_black, 1)], [])
   \<and> extract_formatting_combos sample_ops
       (Readable (without_blanks [page_of [arial_12_black, blank_span] []]))
     = extract_formatting_combos sample_ops (Readable [page_of [arial_12_black, blank_span] []])"
  using blank_spans_contribute_nothing [of blank_span sample_ops 0 "([(key_12_black, 1)], [])"
      "[page_of [arial_12_black, blank_span] []]"]
  by (simp add: span_text_blank_span)

text \<open>
  C7, as stated: the image key is the prefix and exactly the six fields. The source
  writes two constant fields \<open>0\<close> between the colorspace and the bit depth, so the key
  has eight fields after the prefix.
\<close>

theorem image_key_six_fields_counterexample:
  "un_comb_img sample_image = lit ''IMG_1_2_png_3_0_0_8_4''
   \<and> spec_image_key sample_image = lit ''IMG_1_2_png_3_8_4''
   \<and> un_comb_img sample_image \<noteq> spec_image_key sample_image"
  by (simp add: un_comb_img_def spec_image_key_def image_fields_def sample_image_def lit_def
      str_int_def str_nat.simps)

lemma un_com_of_not_image:
  assumes "\<And>x. set (float_str ops x) \<subseteq> float_chars"
  shows "take 1 (un_com_of ops s) \<noteq> [73]"
proof -
  have nI: "73 \<notin> float_chars" by (simp add: float_chars_def lit_def)
  have zero: "str_int 0 = [48]" by (simp add: str_int_def str_nat.simps)
  show ?thesis
  proof (cases "sp_size s")
    case None
    then show ?thesis by (simp add: un_com_of_def zero)
  next
    case (Some x)
    show ?thesis
    proof (cases "float_str ops (float_round1 ops x)")
      case Nil
      then show ?thesis using Some by (simp add: un_com_of_def lit_def)
    next
      case (Cons c cs)
      then have "c \<in> float_chars" using assms [of "float_round1 ops x"] by auto
      then have "c \<noteq> 73" using nI by auto
      then show ?thesis using Some Cons by (simp add: un_com_of_def)
    qed
  qed
qed

text \<open>
  C7, amended. The image key is the prefix \<open>IMG_\<close> and, joined by \<open>_\<close>, the six
  fields with two constant fields \<open>0\<close> between the colorspace and the bit depth.
  Where the text of a float is made of the characters of a Python float, no image key
  is the key of a text span.
\<close>

theorem image_key_format:
  assumes "\<And>x. set (float_str ops x) \<subseteq> float_chars"
  shows "un_comb_img im
         = lit ''IMG_'' @ join (lit ''_'')
             (take 4 (image_fields im) @ [lit ''0'', lit ''0''] @ drop 4 (image_fields im))
         \<and> length (image_fields im) = 6
         \<and> un_comb_img im \<noteq> un_com_of ops s"
proof -
  have fmt: "un_comb_img im
             = lit ''IMG_'' @ join (lit ''_'')
                 (take 4 (image_fields im) @ [lit ''0'', lit ''0''] @ drop 4 (image_fields im))"
    by (simp add: un_comb_img_def image_fields_def lit_def)
  have "take 1 (un_comb_img im) = [73]" by (simp add: un_comb_img_def lit_def)
  then have "un_comb_img im \<noteq> un_com_of ops s"
    using un_com_of_not_image [OF assms, of s] by auto
  then show ?thesis using fmt by (simp add: image_fields_def)
qed

lemma digit_float_char: "48 \<le> c \<Longrightarrow> c \<le> 57 \<Longrightarrow> c \<in> float_chars"
proof -
  assume "48 \<le> c" "c \<le> 57"
  then have "c = 48 \<or> c = 49 \<or> c = 50 \<or> c = 51 \<or> c = 52 \<or> c = 53 \<or> c = 54
             \<or> c = 55 \<or> c = 56 \<or> c = 57" by arith
  then show ?thesis by (auto simp: float_chars_def lit_def)
qed

lemma str_nat_digits: "\<forall>c \<in> set (str_nat n). 48 \<le> c \<and> c \<le> 57"
proof (induction n rule: str_nat.induct)
  case (1 n)
  show ?case
  proof (cases "n < 10")
    case True
    then show ?thesis by (simp add: str_nat.simps [of n])
  next
    case False
    have "n mod 10 < 10" by simp
    then have "48 + n mod 10 \<le> 57" by arith
    then show ?thesis using False 1 by (simp add: str_nat.simps [of n])
  qed
qed

lemma sample_float_chars: "set (float_str sample_ops x) \<subseteq> float_chars"
proof
  fix c
  assume "c \<in> set (float_str sample_ops x)"
  then have "c \<in> set (str_int \<lfloor>x\<rfloor>) \<or> c = 46 \<or> c = 48"
    by (auto simp: sample_ops_def lit_def)
  moreover have "c \<in> set (str_int i) \<Longrightarrow> c = 45 \<or> (48 \<le> c \<and> c \<le> 57)" for i
    using str_nat_digits [of "nat i"] str_nat_digits [of "nat (- i)"]
    by (auto simp: str_int_def split: if_splits)
  moreover have "45 \<in> float_chars" "46 \<in> float_chars" "48 \<in> float_chars"
    by (simp_all add: float_chars_def lit_def)
  ultimately show "c \<in> float_chars" using digit_float_char [of c] by blast
qed

theorem image_key_format_witness:
  "un_comb_img sample_image
   = lit ''IMG_'' @ join (lit ''_'')
       (take 4 (image_fields sample_image) @ [lit ''0'', lit ''0'']
        @ drop 4 (image_fields sample_image))
   \<and> un_comb_img sample_image \<noteq> un_com_of sample_ops arial_12_black"
  using image_key_format [of sample_ops sample_image arial_12_black, OF sample_float_chars]
  by blast

lemma length_filter_mset:
  assumes "mset xs = mset ys"
  shows "length (filter P xs) = length (filter P ys)"
proof -
  have "length (filter P zs) = size (filter_mset P (mset zs))" for zs :: "'a list"
    by (simp flip: mset_filter)
  then show ?thesis using assms by simp
qed

lemma text_count_by_span:
  "length (filter (\<lambda>ns. has_text ns \<and> un_com_of ops (snd ns) = k) xs)
   = length (filter (\<lambda>s. span_text s \<noteq> [] \<and> un_com_of ops s = k) (map snd xs))"
  by (induction xs) (simp_all add: has_text_def)

text \<open>
  C9. Extraction of a readable document returns, and what it returns is a function of
  the document's content alone: two documents with the same sequence of spans get the
  same frequency mapping and the same span list in the same order, and the same
  sequence of images gives the same image mapping. The counts do not depend on the
  order of iteration either: when the spans (or the images) of two documents are the
  same up to order, every key has the same count in both mappings, which is equality
  of the two Counters as Python compares dicts.
\<close>

theorem extraction_deterministic:
  "\<exists>c1 x1 i1 c2 x2 i2.
     extract_formatting_combos ops (Readable d1) = Inr (c1, x1)
     \<and> extract_image_combos (Readable d1) = Inr i1
     \<and> extract_formatting_combos ops (Readable d2) = Inr (c2, x2)
     \<and> extract_image_combos (Readable d2) = Inr i2
     \<and> (doc_spans d1 = doc_spans d2 \<longrightarrow> c1 = c2 \<and> x1 = x2)
     \<and> (doc_images d1 = doc_images d2 \<longrightarrow> i1 = i2)
     \<and> (mset (map snd (doc_spans d1)) = mset (map snd (doc_spans d2)) \<longrightarrow>
          (\<forall>k. counter_get c1 k = counter_get c2 k))
     \<and> (mset (doc_images d1) = mset (doc_images d2) \<longrightarrow>
          (\<forall>k. counter_get i1 k = counter_get i2 k))"
proof -
  let ?f = "\<lambda>ns. span_step ops (fst ns) (snd ns)"
  let ?t = "\<lambda>d. fold ?f (doc_spans d) ([], [])"
  let ?i = "\<lambda>d::'a pdf_page list. fold image_step (doc_images d) []"
  have e: "extract_formatting_combos ops (Readable d) = Inr (fst (?t d), snd (?t d))" for d
    by (simp add: extract_formatting_combos_spans)
  have tc: "counter_get (fst (?t d)) k
            = int (length (filter (\<lambda>s. span_text s \<noteq> [] \<and> un_com_of ops s = k)
                             (map snd (doc_spans d))))" for d k
    by (simp add: fold_span_step_count counter_get_Nil text_count_by_span)
  have ic: "counter_get (?i d) k = int (length (filter (\<lambda>im. un_comb_img im = k) (doc_images d)))"
    for d k
    by (simp add: fold_image_step_count counter_get_Nil)
  have seq: "doc_spans d1 = doc_spans d2 \<longrightarrow> fst (?t d1) = fst (?t d2) \<and> snd (?t d1) = snd (?t d2)"
    by simp
  have iseq: "doc_images d1 = doc_images d2 \<longrightarrow> ?i d1 = ?i d2"
    by simp
  have perm: "mset (map snd (doc_spans d1)) = mset (map snd (doc_spans d2)) \<longrightarrow>
              (\<forall>k. counter_get (fst (?t d1)) k = counter_get (fst (?t d2)) k)"
    using length_filter_mset [of "map snd (doc_spans d1)" "map snd (doc_spans d2)"]
    by (simp add: tc)
  have iperm: "mset (doc_images d1) = mset (doc_images d2) \<longrightarrow>
               (\<forall>k. counter_get (?i d1) k = counter_get (?i d2) k)"
    using length_filter_mset [of "doc_images d1" "doc_images d2"]
    by (simp add: ic)
  show ?thesis
    using e [of d1] e [of d2] extract_image_combos_images [of d1]
      extract_image_combos_images [of d2] seq iseq perm iperm
    by blast
qed

theorem extraction_deterministic_witness:
  "mset (map snd (doc_spans [page_of [arial_12_black, arial_14_red] []]))
   = mset (map snd (doc_spans [page_of [arial_14_red] [], page_of [arial_12_black] []]))
   \<and> (\<exists>c1 x1 c2 x2.
        extract_formatting_combos sample_ops (Readable [page_of [arial_12_black, arial_14_red] []])
          = Inr (c1, x1)
        \<and> extract_formatting_combos sample_ops
            (Readable [page_of [arial_14_red] [], page_of [arial_12_black] []]) = Inr (c2, x2)
        \<and> (\<forall>k. counter_get c1 k = counter_get c2 k))"
proof -
  have h: "mset (map snd (doc_spans [page_of [arial_12_black, arial_14_red] []]))
           = mset (map snd (doc_spans [page_of [arial_14_red] [], page_of [arial_12_black] []]))"
    by (simp add: doc_spans_def page_spans_def block_spans_def line_spans_def page_of_def
        enumerate_simps)
  show ?thesis
    using h extraction_deterministic [of sample_ops "[page_of [arial_12_black, arial_14_red] []]"
        "[page_of [arial_14_red] [], page_of [arial_12_black] []]"]
    by blast
qed

text \<open>
  C10, as stated: in the error record every field but \<open>Edited\<close> and \<open>Reasons\<close> is an
  empty default. The record of the \<open>except\<close> branch also carries the file's name:
  \<open>File Name\<close> is the base name of the path.
\<close>

theorem error_record_counterexample:
  "analyze_pdf_try sample_library (lit ''in/a.pdf'') = Inl (lit ''EOF marker not found'')
   \<and> Edited (analyze_pdf sample_library (lit ''in/a.pdf'')) = None
   \<and> File_Name (analyze_pdf sample_library (lit ''in/a.pdf'')) = lit ''a.pdf''
   \<and> File_Name (analyze_pdf sample_library (lit ''in/a.pdf'')) \<noteq> []"
  by (simp add: analyze_pdf_def analyze_pdf_try_def sample_library_def error_result_def
      basename_def lit_def)

lemma analyze_pdf_try_edited:
  assumes "analyze_pdf_try lib p = Inr r"
  shows "\<exists>b. Edited r = Some b"
proof (cases "pdf_metadata lib p")
  case (Inl e)
  then show ?thesis using assms by (simp add: analyze_pdf_try_def)
next
  case (Inr meta)
  then show ?thesis using assms
    by (auto simp add: analyze_pdf_try_def Let_def simp del: scan_keys.simps
        split: sum.split_asm prod.split_asm)
qed

text \<open>
  C10, amended. \<open>analyze_pdf\<close> returns a record for every path and every behaviour of
  its libraries. Either the body of the \<open>try\<close> ran through, and the record is its
  result, with \<open>Edited\<close> true or false; or an exception was raised, and the record has
  \<open>Edited\<close> None, \<open>Reasons\<close> the text \<open>Error: \<close> followed by the message, \<open>File Name\<close>
  the base name of the path, and every other field its empty default. A reader that
  raises is one such case.
\<close>

theorem analyze_pdf_total:
  "((\<exists>r b. analyze_pdf_try lib p = Inr r \<and> analyze_pdf lib p = r \<and> Edited r = Some b)
    \<or> (\<exists>e. analyze_pdf_try lib p = Inl e
          \<and> analyze_pdf lib p =
              \<lparr>File_Name = basename p, Edited = None, Reasons = lit ''Error: '' @ e,
               Creation_Date = [], Modification_Date = [],
               Producer = TextString [], Creator = TextString [], Title = TextString [],
               Full_Metadata = lit ''{}''\<rparr>))
   \<and> (\<forall>e. pdf_metadata lib p = Inl e \<longrightarrow> analyze_pdf_try lib p = Inl e)"
proof -
  have reader: "\<forall>e. pdf_metadata lib p = Inl e \<longrightarrow> analyze_pdf_try lib p = Inl e"
    by (simp add: analyze_pdf_try_def)
  show ?thesis
  proof (cases "analyze_pdf_try lib p")
    case (Inl e)
    then show ?thesis using reader by (simp add: analyze_pdf_def error_result_def)
  next
    case (Inr r)
    then show ?thesis using reader analyze_pdf_try_edited [OF Inr] by (simp add: analyze_pdf_def)
  qed
qed

lemma sample_metadata_b: "pdf_metadata sample_library (lit ''in/b.pdf'') = Inr None"
  by (simp add: sample_library_def lit_def)

lemma keywords_nonempty: "w \<in> set SUSPICIOUS_KEYWORDS \<Longrightarrow> w \<noteq> []"
  by (auto simp: SUSPICIOUS_KEYWORDS_def lit_def)

lemma fold_word_step_empty:
  "(\<And>w. w \<in> set ws \<Longrightarrow> w \<noteq> []) \<Longrightarrow> fold (word_step key []) ws acc = acc"
  by (induction ws arbitrary: acc) (simp_all add: word_step_def lower_def)

lemma scan_keys_no_metadata: "scan_keys None ks acc = Inr acc"
  by (induction ks arbitrary: acc)
    (simp_all add: meta_get_def remove_non_ascii_def fold_word_step_empty keywords_nonempty)

lemma basename_b: "basename (lit ''in/b.pdf'') = lit ''b.pdf''"
  by (simp add: basename_def lit_def)

lemma analyze_pdf_try_b:
  "analyze_pdf_try sample_library (lit ''in/b.pdf'')
   = Inr \<lparr>File_Name = lit ''b.pdf'', Edited = Some False, Reasons = [],
          Creation_Date = [], Modification_Date = [],
          Producer = TextString [], Creator = TextString [], Title = TextString [],
          Full_Metadata = lit ''{}''\<rparr>"
  by (simp add: analyze_pdf_try_def sample_metadata_b scan_keys_no_metadata basename_b
      meta_truthy_def meta_get_def del: scan_keys.simps)

theorem analyze_pdf_total_witness:
  "pdf_metadata sample_library (lit ''in/a.pdf'') = Inl (lit ''EOF marker not found'')
   \<and> analyze_pdf_try sample_library (lit ''in/a.pdf'') = Inl (lit ''EOF marker not found'')
   \<and> analyze_pdf sample_library (lit ''in/b.pdf'')
     = \<lparr>File_Name = lit ''b.pdf'', Edited = Some False, Reasons = [],
        Creation_Date = [], Modification_Date = [],
        Producer = TextString [], Creator = TextString [], Title = TextString [],
        Full_Metadata = lit ''{}''\<rparr>"
proof -
  have h: "pdf_metadata sample_library (lit ''in/a.pdf'') = Inl (lit ''EOF marker not found'')"
    by (simp add: sample_library_def)
  have a: "analyze_pdf_try sample_library (lit ''in/a.pdf'') = Inl (lit ''EOF marker not found'')"
    using h analyze_pdf_total [of sample_library "lit ''in/a.pdf''"] by blast
  have b: "analyze_pdf sample_library (lit ''in/b.pdf'')
           = \<lparr>File_Name = lit ''b.pdf'', Edited = Some False, Reasons = [],
              Creation_Date = [], Modification_Date = [],
              Producer = TextString [], Creator = TextString [], Title = TextString [],
              Full_Metadata = lit ''{}''\<rparr>"
    using analyze_pdf_total [of sample_library "lit ''in/b.pdf''"]
    by (simp only: analyze_pdf_try_b) simp
  show ?thesis using h a b by blast
qed

end
